theory Spec2Isabelle
  imports Complex_Main "HOL-Library.Product_Lexorder"
begin

section \<open>Projektet.py: a queueing network simulated on a virtual clock\<close>

text \<open>
  The program is one Python module. It builds 16 switches (8 \<open>FIFOQueue\<close>, 8
  \<open>PriorityQueue\<close>), 3 HTTP servers and 30 PCs, runs every PC's generator
  \<open>request_http\<close> as a process of a discrete-event environment until no event is left,
  and prints summary statistics.

  The embedding follows the module top to bottom. The module-level constants are the
  fields of a record \<open>config\<close> (with the literals of the request loop: the think-time
  range, the service-time range and the loss probability), so that other configurations
  can be stated; \<open>deployment\<close> is the configuration of the source. Time is a real number;
  the rounding of Python's floats is not modelled.

  The event environment, the resources and the random generator are library code
  (\<open>simpy\<close>, \<open>random\<close>, \<open>numpy.mean\<close>). Their part of the behaviour is written out here
  as far as this program uses it: the event heap of \<open>simpy.Environment\<close> with its
  \<open>(time, priority, eid)\<close> order, \<open>Resource\<close> and \<open>PriorityResource\<close> with their
  \<open>users\<close> and \<open>put_queue\<close>, the \<open>Initialize\<close>, \<open>Timeout\<close>, \<open>Request\<close>,
  \<open>Release\<close> and \<open>Process\<close> events and the callbacks they carry. The random generator
  is a parameter: a stream \<open>g\<close> of natural numbers, of which every call of the library
  consumes the next one.
\<close>

subsection \<open>Constants (lines 7 to 14, and the literals of lines 35, 48 and 77)\<close>

record config =
  NUM_REQUESTS :: nat
  NUM_PCS :: nat
  NUM_SERVERS :: nat
  NUM_SWITCHES :: nat
  FIFO_COUNT :: nat
  PRIORITY_COUNT :: nat
  SWITCH_CAPACITY :: int
  think_lo :: real
  think_hi :: real
  service_lo :: real
  service_hi :: real
  loss_prob :: real

definition deployment :: config where
  "deployment =
     \<lparr>NUM_REQUESTS = 50, NUM_PCS = 30, NUM_SERVERS = 3, NUM_SWITCHES = 12,
      FIFO_COUNT = 8, PRIORITY_COUNT = 8, SWITCH_CAPACITY = 1,
      think_lo = 1 / 10, think_hi = 1 / 2, service_lo = 1 / 2, service_hi = 3 / 2,
      loss_prob = 1 / 10\<rparr>"

subsection \<open>The random generator\<close>

text \<open>
  \<open>random.random()\<close> returns a 53-bit integer divided by \<open>2 ^ 53\<close>;
  \<open>random.uniform(a, b)\<close> is \<open>a + (b - a) * random()\<close>; \<open>random.choice(seq)\<close> is
  \<open>seq[randbelow(len(seq))]\<close> and raises \<open>IndexError\<close> on an empty sequence. The
  \<open>n\<close>-th call reads \<open>g n\<close>.
\<close>

type_synonym rng = "nat \<Rightarrow> nat"

definition py_random :: "rng \<Rightarrow> nat \<Rightarrow> real" where
  "py_random g n = real (g n mod 2 ^ 53) / 2 ^ 53"

definition uniform :: "rng \<Rightarrow> nat \<Rightarrow> real \<Rightarrow> real \<Rightarrow> real" where
  "uniform g n a b = a + (b - a) * py_random g n"

definition randbelow :: "rng \<Rightarrow> nat \<Rightarrow> nat \<Rightarrow> nat" where
  "randbelow g n k = g n mod k"

subsection \<open>Data\<close>

datatype error = ValueError | IndexError | KeyError | ZeroDivisionError

text \<open>The two classes of switch (lines 82 to 90); they are also the two keys of
  \<open>data_loss\<close>, \<open>latencies\<close> and \<open>delays\<close>.\<close>

datatype discipline = FIFO | Priority

text \<open>
  A request event of a resource. \<open>proc\<close> is the index of the PC that made it. A
  \<open>PriorityRequest\<close> also has \<open>priority\<close>, \<open>time\<close> (the clock when it was
  made) and \<open>preempt\<close>; its sort key is \<open>(priority, time, not preempt)\<close>. A plain
  \<open>Request\<close> has no key, and the put queue of a \<open>Resource\<close>, a plain list, asks
  for none.
\<close>

datatype request =
    Request (proc: nat)
  | PriorityRequest (proc: nat) (priority: int) (time: real) (preempt: bool)

fun key :: "request \<Rightarrow> int \<times> real \<times> bool" where
  "key (PriorityRequest p pr t pe) = (pr, t, \<not> pe)"
| "key (Request p) = undefined"

record switch =
  switch_name :: string
  kind :: discipline
  capacity :: int
  users :: "request list"
  put_queue :: "request list"

text \<open>
  The processes of the run: the generator \<open>request_http\<close> of PC \<open>i\<close>, and the generator
  \<open>handle_request\<close> that PC \<open>i\<close> started on server \<open>j\<close> (a PC waits for the one it
  started, so it has at most one at a time).
\<close>

datatype process = PCProc nat | HandlerProc nat nat

text \<open>
  The events that reach the heap, each with the callbacks it carries when it is processed:
  \<^item> \<open>Initialize p\<close>: starts process \<open>p\<close>;
  \<^item> \<open>Timeout p\<close>: resumes \<open>p\<close>, which yielded it;
  \<^item> \<open>RequestEv sw r\<close>: the granted request \<open>r\<close> of switch \<open>sw\<close>; resumes the PC that
    yielded it (its other callback, \<open>_trigger_get\<close>, finds the get queue empty);
  \<^item> \<open>ReleaseEv sw\<close>: a release of switch \<open>sw\<close>; calls \<open>_trigger_put\<close> of the switch;
  \<^item> \<open>ProcessEv p res\<close>: process \<open>p\<close> has ended, normally (\<open>None\<close>) or by the exception
    \<open>res\<close>; that of a handler resumes its PC, that of a PC has no callback.
\<close>

datatype event =
    Initialize process
  | Timeout process
  | RequestEv nat request
  | ReleaseEv nat
  | ProcessEv process "error option"

text \<open>
  Where the generator of a PC is suspended, with its live local variables:
  \<open>Thinking k\<close> at line 35 in iteration \<open>k\<close>;
  \<open>AwaitGrant k request_time switch server request\<close> at line 47;
  \<open>AwaitService k request_time switch server request start_time\<close> at line 57.
  Switches and servers are indices into the lists \<open>switches\<close> and \<open>http_servers\<close>.
\<close>

datatype frame =
    NotStarted
  | Thinking nat
  | AwaitGrant nat real nat nat request
  | AwaitService nat real nat nat request real
  | Finished

record pc =
  pc_name :: string
  successful_requests :: nat
  frame :: frame

record stats =
  queue_lengths :: "nat list"
  utilization :: "real list"

type_synonym entry = "real \<times> nat \<times> nat \<times> event"

record state =
  now :: real
  eid :: nat
  queue :: "entry list"
  drawn :: nat
  http_servers :: "string list"
  switches :: "switch list"
  pcs :: "pc list"
  data_loss :: "discipline \<Rightarrow> nat"
  latencies :: "discipline \<Rightarrow> real list"
  delays :: "discipline \<Rightarrow> real list"
  overall_latencies :: "real list"
  overall_delays :: "real list"
  switch_stats :: "string \<rightharpoonup> stats"
  printed :: "(string \<times> string \<times> real) list"

subsection \<open>Formatting a number in an f-string\<close>

fun string_of_nat :: "nat \<Rightarrow> string" where
  "string_of_nat n =
     (if n < 10 then [''0123456789'' ! n]
      else string_of_nat (n div 10) @ [''0123456789'' ! (n mod 10)])"

declare string_of_nat.simps [simp del]

subsection \<open>The environment: scheduling and the event heap\<close>

definition URGENT :: nat where "URGENT = 0"
definition NORMAL :: nat where "NORMAL = 1"

text \<open>\<open>Environment.schedule\<close>: push \<open>(now + delay, priority, next eid, event)\<close>.\<close>

definition schedule :: "event \<Rightarrow> nat \<Rightarrow> real \<Rightarrow> state \<Rightarrow> state" where
  "schedule ev prio delay s =
     s\<lparr>queue := queue s @ [(now s + delay, prio, eid s, ev)], eid := Suc (eid s)\<rparr>"

definition entry_key :: "entry \<Rightarrow> real \<times> nat \<times> nat" where
  "entry_key e = (fst e, fst (snd e), fst (snd (snd e)))"

text \<open>\<open>heappop\<close>: the entry that is least in the order of the tuples, taken out.\<close>

fun earliest :: "entry \<Rightarrow> entry list \<Rightarrow> entry" where
  "earliest e [] = e"
| "earliest e (x # xs) = earliest (if entry_key x < entry_key e then x else e) xs"

definition heappop :: "entry list \<Rightarrow> (entry \<times> entry list) option" where
  "heappop q = (case q of [] \<Rightarrow> None | e # es \<Rightarrow> Some (earliest e es, remove1 (earliest e es) q))"

subsection \<open>Resources (\<open>simpy.Resource\<close>, \<open>simpy.PriorityResource\<close>)\<close>

text \<open>\<open>BaseResource.__init__\<close> refuses a capacity that is not positive.\<close>

definition new_switch :: "discipline \<Rightarrow> string \<Rightarrow> int \<Rightarrow> error + switch" where
  "new_switch d nm cap =
     (if cap \<le> 0 then Inl ValueError
      else Inr \<lparr>switch_name = nm, kind = d, capacity = cap, users = [], put_queue = []\<rparr>)"

text \<open>
  Appending to the put queue: a plain list for a \<open>FIFOQueue\<close>; the \<open>SortedQueue\<close> of
  a \<open>PriorityQueue\<close> appends and then sorts by \<open>key\<close> (a stable sort).
\<close>

definition put_queue_append :: "discipline \<Rightarrow> request list \<Rightarrow> request \<Rightarrow> request list" where
  "put_queue_append d q r = (case d of FIFO \<Rightarrow> q @ [r] | Priority \<Rightarrow> sort_key key (q @ [r]))"

text \<open>\<open>switch.request()\<close> builds a \<open>Request\<close> or, with the default arguments
  \<open>priority=0, preempt=True\<close>, a \<open>PriorityRequest\<close>.\<close>

definition new_request :: "discipline \<Rightarrow> nat \<Rightarrow> real \<Rightarrow> request" where
  "new_request d i t = (case d of FIFO \<Rightarrow> Request i | Priority \<Rightarrow> PriorityRequest i 0 t True)"

definition upd_switch :: "nat \<Rightarrow> (switch \<Rightarrow> switch) \<Rightarrow> state \<Rightarrow> state" where
  "upd_switch sw f s = s\<lparr>switches := (switches s)[sw := f (switches s ! sw)]\<rparr>"

text \<open>
  \<open>_trigger_put\<close> with \<open>Resource._do_put\<close>: \<open>_do_put\<close> returns nothing, so the loop
  stops after the first request of the put queue. That request gets a slot when fewer
  than \<open>capacity\<close> are in use: it joins \<open>users\<close>, leaves the put queue and is scheduled.
\<close>

definition trigger_put :: "nat \<Rightarrow> state \<Rightarrow> state" where
  "trigger_put sw s =
     (let r = switches s ! sw in
      case put_queue r of
        [] \<Rightarrow> s
      | e # rest \<Rightarrow>
          if int (length (users r)) < capacity r
          then schedule (RequestEv sw e) NORMAL 0
                 (upd_switch sw (\<lambda>x. x\<lparr>users := users x @ [e], put_queue := rest\<rparr>) s)
          else s)"

text \<open>\<open>Put.__init__\<close>: append to the put queue, then \<open>_trigger_put\<close>.\<close>

definition request_put :: "nat \<Rightarrow> request \<Rightarrow> state \<Rightarrow> state" where
  "request_put sw e s =
     trigger_put sw (upd_switch sw (\<lambda>x. x\<lparr>put_queue := put_queue_append (kind x) (put_queue x) e\<rparr>) s)"

text \<open>
  \<open>resource.release(request)\<close>, called by \<open>Request.__exit__\<close>: the release event enters
  the get queue and \<open>_trigger_get\<close> serves it at once (\<open>_do_get\<close> removes the request
  from \<open>users\<close> and the event succeeds), so the get queue is empty again on return.
\<close>

definition release :: "nat \<Rightarrow> request \<Rightarrow> state \<Rightarrow> state" where
  "release sw e s =
     schedule (ReleaseEv sw) NORMAL 0 (upd_switch sw (\<lambda>x. x\<lparr>users := remove1 e (users x)\<rparr>) s)"

subsection \<open>The processes: \<open>PC.request_http\<close> and \<open>HTTPServer.handle_request\<close>\<close>

definition set_frame :: "nat \<Rightarrow> frame \<Rightarrow> state \<Rightarrow> state" where
  "set_frame i f s = s\<lparr>pcs := (pcs s)[i := (pcs s ! i)\<lparr>frame := f\<rparr>]\<rparr>"

text \<open>
  An exception that leaves the generator of PC \<open>i\<close> is caught by \<open>Process._resume\<close>:
  the generator is over, and the process event is scheduled as failed.
\<close>

definition pc_fails :: "nat \<Rightarrow> error \<Rightarrow> state \<Rightarrow> state" where
  "pc_fails i err s = schedule (ProcessEv (PCProc i) (Some err)) NORMAL 0 (set_frame i Finished s)"

text \<open>
  The head of the loop of line 34 for iteration \<open>k\<close>, up to the \<open>yield\<close> of line 35. The
  think time is drawn; \<open>Timeout.__init__\<close> raises \<open>ValueError\<close> on a negative delay.
  When \<open>range(NUM_REQUESTS)\<close> is exhausted the generator returns and the process event
  is scheduled.
\<close>

definition loop_head :: "config \<Rightarrow> rng \<Rightarrow> nat \<Rightarrow> nat \<Rightarrow> state \<Rightarrow> state" where
  "loop_head cfg g i k s =
     (if k < NUM_REQUESTS cfg then
        (let d = uniform g (drawn s) (think_lo cfg) (think_hi cfg);
             s1 = s\<lparr>drawn := Suc (drawn s)\<rparr>
         in if d < 0 then pc_fails i ValueError s1
            else schedule (Timeout (PCProc i)) NORMAL d (set_frame i (Thinking k) s1))
      else schedule (ProcessEv (PCProc i) None) NORMAL 0 (set_frame i Finished s))"

text \<open>
  Lines 36 to 47, run when the think time of iteration \<open>k\<close> is over: the switch and the
  server are chosen, the length of the switch's put queue is appended to its statistics,
  the request is made and yielded.
\<close>

definition issue_request :: "config \<Rightarrow> rng \<Rightarrow> nat \<Rightarrow> nat \<Rightarrow> state \<Rightarrow> state" where
  "issue_request cfg g i k s =
     (let request_time = now s in
      if switches s = [] then pc_fails i IndexError s
      else
        let sw = randbelow g (drawn s) (length (switches s));
            s1 = s\<lparr>drawn := Suc (drawn s)\<rparr>
        in
        if http_servers s1 = [] then pc_fails i IndexError s1
        else
          let srv = randbelow g (drawn s1) (length (http_servers s1));
              s2 = s1\<lparr>drawn := Suc (drawn s1)\<rparr>;
              queue_length = length (put_queue (switches s2 ! sw));
              nm = switch_name (switches s2 ! sw)
          in
          case switch_stats s2 nm of
            None \<Rightarrow> pc_fails i KeyError s2
          | Some st \<Rightarrow>
              let s3 = s2\<lparr>switch_stats :=
                         (switch_stats s2)(nm \<mapsto> st\<lparr>queue_lengths := queue_lengths st @ [queue_length]\<rparr>)\<rparr>;
                  r = new_request (kind (switches s3 ! sw)) i (now s3)
              in set_frame i (AwaitGrant k request_time sw srv r) (request_put sw r s3))"

text \<open>
  Lines 48 to 57, run when the request is granted. On a loss the counter of the switch's
  class is incremented and \<open>continue\<close> leaves the \<open>with\<close> block, whose \<open>__exit__\<close>
  releases the slot, before the next iteration starts. Otherwise the handler process is
  created (its \<open>Initialize\<close> event is scheduled as urgent) and yielded.
\<close>

definition after_grant ::
  "config \<Rightarrow> rng \<Rightarrow> nat \<Rightarrow> nat \<Rightarrow> real \<Rightarrow> nat \<Rightarrow> nat \<Rightarrow> request \<Rightarrow> state \<Rightarrow> state" where
  "after_grant cfg g i k request_time sw srv r s =
     (let u = py_random g (drawn s);
          s1 = s\<lparr>drawn := Suc (drawn s)\<rparr>
      in
      if u < loss_prob cfg then
        (let d = kind (switches s1 ! sw);
             s2 = s1\<lparr>data_loss := (data_loss s1)(d := data_loss s1 d + 1)\<rparr>
         in loop_head cfg g i (Suc k) (release sw r s2))
      else
        (let start_time = now s1
         in schedule (Initialize (HandlerProc i srv)) URGENT 0
              (set_frame i (AwaitService k request_time sw srv r start_time) s1)))"

text \<open>
  Lines 58 to 68, run when the handler process has ended: the success is counted, the
  latency and the delay are appended, the \<open>with\<close> block ends (release), and the loop goes on.
\<close>

definition after_service ::
  "config \<Rightarrow> rng \<Rightarrow> nat \<Rightarrow> nat \<Rightarrow> real \<Rightarrow> nat \<Rightarrow> nat \<Rightarrow> request \<Rightarrow> real \<Rightarrow> state \<Rightarrow> state" where
  "after_service cfg g i k request_time sw srv r start_time s =
     (let end_time = now s;
          s1 = s\<lparr>pcs := (pcs s)[i := (pcs s ! i)\<lparr>successful_requests :=
                                                 successful_requests (pcs s ! i) + 1\<rparr>],
                 overall_latencies := overall_latencies s @ [end_time - start_time],
                 overall_delays := overall_delays s @ [end_time - request_time]\<rparr>;
          d = (case kind (switches s1 ! sw) of FIFO \<Rightarrow> FIFO | Priority \<Rightarrow> Priority);
          s2 = s1\<lparr>latencies := (latencies s1)(d := latencies s1 d @ [end_time - start_time]),
                  delays := (delays s1)(d := delays s1 d @ [end_time - request_time])\<rparr>
      in loop_head cfg g i (Suc k) (release sw r s2))"

text \<open>
  A failed handler process throws its exception into the PC at line 57: \<open>__exit__\<close>
  releases the slot and the exception leaves the generator.
\<close>

definition service_failed :: "nat \<Rightarrow> nat \<Rightarrow> request \<Rightarrow> error \<Rightarrow> state \<Rightarrow> state" where
  "service_failed i sw r err s = pc_fails i err (release sw r s)"

text \<open>Lines 77 and 78: the service time is drawn and the handler yields its timeout.\<close>

definition handler_start :: "config \<Rightarrow> rng \<Rightarrow> nat \<Rightarrow> nat \<Rightarrow> state \<Rightarrow> state" where
  "handler_start cfg g i j s =
     (let service_time = uniform g (drawn s) (service_lo cfg) (service_hi cfg);
          s1 = s\<lparr>drawn := Suc (drawn s)\<rparr>
      in if service_time < 0 then schedule (ProcessEv (HandlerProc i j) (Some ValueError)) NORMAL 0 s1
         else schedule (Timeout (HandlerProc i j)) NORMAL service_time s1)"

text \<open>Line 79: the response is printed (PC, server, clock) and the handler returns.\<close>

definition handler_done :: "nat \<Rightarrow> nat \<Rightarrow> state \<Rightarrow> state" where
  "handler_done i j s =
     schedule (ProcessEv (HandlerProc i j) None) NORMAL 0
       (s\<lparr>printed := printed s @ [(pc_name (pcs s ! i), http_servers s ! j, now s)]\<rparr>)"

subsection \<open>\<open>Environment.step\<close> and \<open>Environment.run\<close>\<close>

text \<open>
  The callbacks of the event that was popped. A failed event that no callback has taken
  (the process event of a PC) is raised by \<open>step\<close>, and so by \<open>run\<close>.
\<close>

fun dispatch :: "config \<Rightarrow> rng \<Rightarrow> event \<Rightarrow> state \<Rightarrow> error + state" where
  "dispatch cfg g (Initialize (PCProc i)) s = Inr (loop_head cfg g i 0 s)"
| "dispatch cfg g (Initialize (HandlerProc i j)) s = Inr (handler_start cfg g i j s)"
| "dispatch cfg g (Timeout (PCProc i)) s =
     Inr (case frame (pcs s ! i) of Thinking k \<Rightarrow> issue_request cfg g i k s | _ \<Rightarrow> s)"
| "dispatch cfg g (Timeout (HandlerProc i j)) s = Inr (handler_done i j s)"
| "dispatch cfg g (RequestEv sw e) s =
     Inr (case frame (pcs s ! proc e) of
            AwaitGrant k request_time sw' srv r \<Rightarrow> after_grant cfg g (proc e) k request_time sw' srv r s
          | _ \<Rightarrow> s)"
| "dispatch cfg g (ReleaseEv sw) s = Inr (trigger_put sw s)"
| "dispatch cfg g (ProcessEv (HandlerProc i j) res) s =
     (case frame (pcs s ! i) of
        AwaitService k request_time sw srv r start_time \<Rightarrow>
          (case res of
             None \<Rightarrow> Inr (after_service cfg g i k request_time sw srv r start_time s)
           | Some err \<Rightarrow> Inr (service_failed i sw r err s))
      | _ \<Rightarrow> (case res of None \<Rightarrow> Inr s | Some err \<Rightarrow> Inl err))"
| "dispatch cfg g (ProcessEv (PCProc i) res) s = (case res of None \<Rightarrow> Inr s | Some err \<Rightarrow> Inl err)"

text \<open>\<open>step\<close>: \<open>None\<close> is \<open>EmptySchedule\<close>; otherwise the clock moves to the time of the
  popped entry and its callbacks run.\<close>

definition step :: "config \<Rightarrow> rng \<Rightarrow> state \<Rightarrow> (error + state) option" where
  "step cfg g s =
     (case heappop (queue s) of
        None \<Rightarrow> None
      | Some ((t, p, n, ev), q) \<Rightarrow> Some (dispatch cfg g ev (s\<lparr>now := t, queue := q\<rparr>)))"

text \<open>\<open>run\<close>: steps until the schedule is empty. The first argument bounds the number
  of steps; \<open>None\<close> says that the bound was reached with events left.\<close>

fun run :: "nat \<Rightarrow> config \<Rightarrow> rng \<Rightarrow> state \<Rightarrow> (error + state) option" where
  "run 0 cfg g s = (if queue s = [] then Some (Inr s) else None)"
| "run (Suc n) cfg g s =
     (case step cfg g s of
        None \<Rightarrow> Some (Inr s)
      | Some (Inl err) \<Rightarrow> Some (Inl err)
      | Some (Inr s') \<Rightarrow> run n cfg g s')"

subsection \<open>Building the simulation (lines 22 and 93 to 116)\<close>

definition empty_stats :: stats where
  "empty_stats = \<lparr>queue_lengths = [], utilization = []\<rparr>"

definition initial_switch_stats :: "nat \<Rightarrow> string \<rightharpoonup> stats" where
  "initial_switch_stats n =
     fold (\<lambda>i m. m(''Switch '' @ string_of_nat (i + 1) \<mapsto> empty_stats)) [0..<n] Map.empty"

fun make_switches ::
  "discipline \<Rightarrow> string \<Rightarrow> int \<Rightarrow> nat list \<Rightarrow> switch list \<Rightarrow> error + switch list" where
  "make_switches d prefix cap [] acc = Inr acc"
| "make_switches d prefix cap (i # ns) acc =
     (case new_switch d (prefix @ string_of_nat (i + 1)) cap of
        Inl err \<Rightarrow> Inl err
      | Inr sw \<Rightarrow> make_switches d prefix cap ns (acc @ [sw]))"

definition add_pc :: "nat \<Rightarrow> state \<Rightarrow> state" where
  "add_pc i s =
     schedule (Initialize (PCProc i)) URGENT 0
       (s\<lparr>pcs := pcs s @ [\<lparr>pc_name = ''PC'' @ string_of_nat (i + 1),
                            successful_requests = 0, frame = NotStarted\<rparr>]\<rparr>)"

definition setup_simulation :: "config \<Rightarrow> error + state" where
  "setup_simulation cfg =
     (case make_switches FIFO ''FIFO Switch '' (SWITCH_CAPACITY cfg) [0..<FIFO_COUNT cfg] [] of
        Inl err \<Rightarrow> Inl err
      | Inr fifos \<Rightarrow>
          (case make_switches Priority ''Priority Switch '' (SWITCH_CAPACITY cfg)
                  [0..<PRIORITY_COUNT cfg] fifos of
             Inl err \<Rightarrow> Inl err
           | Inr sws \<Rightarrow>
               Inr (fold add_pc [0..<NUM_PCS cfg]
                     \<lparr>now = 0, eid = 0, queue = [], drawn = 0,
                      http_servers = map (\<lambda>i. ''Server'' @ string_of_nat (i + 1)) [0..<NUM_SERVERS cfg],
                      switches = sws, pcs = [],
                      data_loss = (\<lambda>_. 0), latencies = (\<lambda>_. []), delays = (\<lambda>_. []),
                      overall_latencies = [], overall_delays = [],
                      switch_stats =
                        fold (\<lambda>sw m. m(switch_name sw \<mapsto> empty_stats)) sws
                          (initial_switch_stats (NUM_SWITCHES cfg)),
                      printed = []\<rparr>)))"

subsection \<open>The statistics of lines 122 to 126\<close>

text \<open>\<open>numpy.mean\<close> of a list; of an empty list it is not a number (\<open>None\<close>).\<close>

definition np_mean :: "real list \<Rightarrow> real option" where
  "np_mean xs = (if xs = [] then None else Some (sum_list xs / real (length xs)))"

text \<open>\<open>np.mean(xs) if xs else 0\<close>.\<close>

definition average :: "real list \<Rightarrow> real option" where
  "average xs = (if xs \<noteq> [] then np_mean xs else Some 0)"

record summary =
  throughput_value :: real
  loss :: "discipline \<Rightarrow> nat"
  average_latency_fifo :: "real option"
  average_latency_priority :: "real option"
  average_delay_fifo :: "real option"
  average_delay_priority :: "real option"

text \<open>The division of line 122 raises \<open>ZeroDivisionError\<close> when the clock is still 0.\<close>

definition summarise :: "state \<Rightarrow> error + summary" where
  "summarise s =
     (if now s = 0 then Inl ZeroDivisionError
      else Inr \<lparr>throughput_value = real (sum_list (map successful_requests (pcs s))) / now s,
                loss = data_loss s,
                average_latency_fifo = average (latencies s FIFO),
                average_latency_priority = average (latencies s Priority),
                average_delay_fifo = average (delays s FIFO),
                average_delay_priority = average (delays s Priority)\<rparr>)"

subsection \<open>The states of a run\<close>

text \<open>The states that \<open>run\<close> goes through: the state built by lines 93 to 116, and every
  state that a step without exception leads to.\<close>

inductive reachable :: "config \<Rightarrow> rng \<Rightarrow> state \<Rightarrow> bool" for cfg :: config and g :: rng where
  reach_init: "setup_simulation cfg = Inr s \<Longrightarrow> reachable cfg g s"
| reach_step: "reachable cfg g s \<Longrightarrow> step cfg g s = Some (Inr s') \<Longrightarrow> reachable cfg g s'"

subsection \<open>Inputs used as examples\<close>

definition zero_draws :: rng where
  "zero_draws = (\<lambda>_. 0)"

definition no_switches :: config where
  "no_switches = deployment\<lparr>NUM_PCS := 1, FIFO_COUNT := 0, PRIORITY_COUNT := 0\<rparr>"

definition no_pcs :: config where
  "no_pcs = deployment\<lparr>NUM_PCS := 0\<rparr>"

definition no_capacity :: config where
  "no_capacity = deployment\<lparr>SWITCH_CAPACITY := 0\<rparr>"

definition sample_state :: state where
  "sample_state =
     \<lparr>now = 2, eid = 0, queue = [], drawn = 0, http_servers = [], switches = [], pcs = [],
      data_loss = (\<lambda>_. 0), latencies = (\<lambda>d. case d of FIFO \<Rightarrow> [1, 2] | Priority \<Rightarrow> []),
      delays = (\<lambda>d. case d of FIFO \<Rightarrow> [2, 4] | Priority \<Rightarrow> []),
      overall_latencies = [1, 2], overall_delays = [2, 4],
      switch_stats = Map.empty, printed = []\<rparr>"

definition scenario :: config where
  "scenario = deployment\<lparr>NUM_REQUESTS := 1, NUM_PCS := 1, NUM_SERVERS := 1, FIFO_COUNT := 1,
                           PRIORITY_COUNT := 0, loss_prob := 0\<rparr>"

text \<open>The state of a run after \<open>n\<close> steps (a step that raises, or the empty schedule,
  leaves the state as it is).\<close>

definition advance :: "config \<Rightarrow> rng \<Rightarrow> state \<Rightarrow> state" where
  "advance cfg g s = (case step cfg g s of Some (Inr s') \<Rightarrow> s' | _ \<Rightarrow> s)"

definition state_after :: "nat \<Rightarrow> config \<Rightarrow> rng \<Rightarrow> state" where
  "state_after n cfg g = (advance cfg g ^^ n) (projr (setup_simulation cfg))"

subsection \<open>Predicates on states\<close>

text \<open>What a switch keeps for life: its name, its class and its capacity.\<close>

definition sw_static :: "switch \<Rightarrow> string \<times> discipline \<times> int" where
  "sw_static sw = (switch_name sw, kind sw, capacity sw)"

text \<open>The slots in use (\<open>Resource.count\<close>, the length of \<open>users\<close>) are within the
  capacity, for every switch.\<close>

definition within_capacity :: "switch list \<Rightarrow> bool" where
  "within_capacity xs = (\<forall>sw \<in> set xs. int (length (users sw)) \<le> capacity sw)"

definition built_with :: "int \<Rightarrow> switch list \<Rightarrow> bool" where
  "built_with cap xs = (\<forall>sw \<in> set xs. capacity sw = cap)"

definition contention :: config where
  "contention = deployment\<lparr>NUM_REQUESTS := 1, NUM_PCS := 2, NUM_SERVERS := 1, FIFO_COUNT := 0,
                             PRIORITY_COUNT := 1\<rparr>"

definition lossy :: config where
  "lossy = deployment\<lparr>NUM_REQUESTS := 1, NUM_PCS := 1, NUM_SERVERS := 1, FIFO_COUNT := 1,
                        PRIORITY_COUNT := 0\<rparr>"

text \<open>No event is scheduled before the current clock.\<close>

definition scheduled_ahead :: "state \<Rightarrow> bool" where
  "scheduled_ahead s = (\<forall>e \<in> set (queue s). now s \<le> fst e)"

text \<open>
  First in, first out, in the words of the specification: a request joins the tail of the
  waiting collection, whatever the class of the switch (and the slot goes to the head).
\<close>

definition fifo_request_put :: "nat \<Rightarrow> request \<Rightarrow> state \<Rightarrow> state" where
  "fifo_request_put sw e s =
     trigger_put sw (upd_switch sw (\<lambda>x. x\<lparr>put_queue := put_queue x @ [e]\<rparr>) s)"

text \<open>
  A waiting request with the default key: priority 0, \<open>preempt\<close> true, made no later
  than \<open>t\<close>. The put queue of a priority switch holds such requests only, in the order of
  their keys.
\<close>

definition default_key_before :: "real \<Rightarrow> request \<Rightarrow> bool" where
  "default_key_before t r = (\<exists>p t'. r = PriorityRequest p 0 t' True \<and> t' \<le> t)"

definition waiting_in_order :: "real \<Rightarrow> switch \<Rightarrow> bool" where
  "waiting_in_order t sw =
     (kind sw = Priority \<longrightarrow>
        sorted (map key (put_queue sw)) \<and> (\<forall>r \<in> set (put_queue sw). default_key_before t r))"

definition waiters_in_order :: "real \<Rightarrow> switch list \<Rightarrow> bool" where
  "waiters_in_order t xs = (\<forall>sw \<in> set xs. waiting_in_order t sw)"

text \<open>The names of the switches, and the shape that the statistics keep: no utilization
  sample anywhere, and queue-length samples only under the name of a switch.\<close>

definition switch_names :: "state \<Rightarrow> string set" where
  "switch_names s = set (map switch_name (switches s))"

definition stats_shape :: "string set \<Rightarrow> (string \<rightharpoonup> stats) \<Rightarrow> bool" where
  "stats_shape names m =
     (names \<subseteq> dom m \<and>
      (\<forall>k st. m k = Some st \<longrightarrow> utilization st = [] \<and> (k \<notin> names \<longrightarrow> queue_lengths st = [])))"

subsection \<open>The history of a run\<close>

text \<open>Acquired at a priority switch with the default key only.\<close>

definition default_acquires :: "switch list \<Rightarrow> (nat \<Rightarrow> request list) \<Rightarrow> bool" where
  "default_acquires xs A =
     (\<forall>sw < length xs. kind (xs ! sw) = Priority \<longrightarrow>
        (\<forall>r \<in> set (A sw). priority r = 0 \<and> preempt r))"


text \<open>
  What a step shows of a switch \<open>sw\<close>: the acquire that line 46 makes at it, and the
  requests of it that were granted (each grant schedules the request event).
\<close>

definition acquired_at :: "nat \<Rightarrow> config \<Rightarrow> rng \<Rightarrow> event \<Rightarrow> state \<Rightarrow> request list" where
  "acquired_at sw cfg g ev s =
     (case ev of
        Timeout (PCProc i) \<Rightarrow>
          (case frame (pcs s ! i) of
             Thinking k \<Rightarrow>
               if switches s \<noteq> [] \<and> http_servers s \<noteq> [] \<and>
                  randbelow g (drawn s) (length (switches s)) = sw \<and>
                  switch_stats s (switch_name (switches s ! sw)) \<noteq> None
               then [new_request (kind (switches s ! sw)) i (now s)]
               else []
           | _ \<Rightarrow> [])
      | _ \<Rightarrow> [])"

fun granted_at :: "nat \<Rightarrow> entry list \<Rightarrow> request list" where
  "granted_at sw [] = []"
| "granted_at sw ((t, p, n, RequestEv x e) # es) =
     (if x = sw then e # granted_at sw es else granted_at sw es)"
| "granted_at sw (_ # es) = granted_at sw es"

text \<open>
  A run with its history: for every switch (by index), the requests acquired at it and
  the requests granted at it, in the order in which the run made them.
\<close>

inductive observed ::
  "config \<Rightarrow> rng \<Rightarrow> state \<Rightarrow> (nat \<Rightarrow> request list) \<Rightarrow> (nat \<Rightarrow> request list) \<Rightarrow> bool"
  for cfg :: config and g :: rng where
  obs_init: "setup_simulation cfg = Inr s \<Longrightarrow> observed cfg g s (\<lambda>_. []) (\<lambda>_. [])"
| obs_step:
    "observed cfg g s A G \<Longrightarrow> heappop (queue s) = Some ((t, p, n, ev), q) \<Longrightarrow>
     dispatch cfg g ev (s\<lparr>now := t, queue := q\<rparr>) = Inr s' \<Longrightarrow>
     observed cfg g s'
       (\<lambda>sw. A sw @ acquired_at sw cfg g ev (s\<lparr>now := t, queue := q\<rparr>))
       (\<lambda>sw. G sw @ granted_at sw (drop (length q) (queue s')))"

definition observe_step ::
  "config \<Rightarrow> rng \<Rightarrow> state \<times> (nat \<Rightarrow> request list) \<times> (nat \<Rightarrow> request list)
     \<Rightarrow> state \<times> (nat \<Rightarrow> request list) \<times> (nat \<Rightarrow> request list)" where
  "observe_step cfg g x =
     (case x of (s, A, G) \<Rightarrow>
        (case heappop (queue s) of
           None \<Rightarrow> (s, A, G)
         | Some ((t, p, n, ev), q) \<Rightarrow>
             (case dispatch cfg g ev (s\<lparr>now := t, queue := q\<rparr>) of
                Inl err \<Rightarrow> (s, A, G)
              | Inr s' \<Rightarrow>
                  (s', \<lambda>sw. A sw @ acquired_at sw cfg g ev (s\<lparr>now := t, queue := q\<rparr>),
                   \<lambda>sw. G sw @ granted_at sw (drop (length q) (queue s'))))))"

definition observed_after ::
  "nat \<Rightarrow> config \<Rightarrow> rng \<Rightarrow> state \<times> (nat \<Rightarrow> request list) \<times> (nat \<Rightarrow> request list)" where
  "observed_after n cfg g =
     (observe_step cfg g ^^ n) (projr (setup_simulation cfg), \<lambda>_. [], \<lambda>_. [])"

text \<open>The effect of an operation on the waiting requests of switch \<open>sw\<close>: the requests
  that waited, then the new ones, are those granted by the operation, then those that wait
  after it.\<close>

definition moves :: "nat \<Rightarrow> request list \<Rightarrow> state \<Rightarrow> state \<Rightarrow> bool" where
  "moves sw new s s' =
     (length (switches s') = length (switches s) \<and>
      (\<exists>ext. queue s' = queue s @ ext \<and>
         put_queue (switches s ! sw) @ new = granted_at sw ext @ put_queue (switches s' ! sw)))"

section \<open>Properties\<close>

subsection \<open>What each operation leaves unchanged\<close>

lemma schedule_fields [simp]:
  "now (schedule ev p d s) = now s"
  "drawn (schedule ev p d s) = drawn s"
  "http_servers (schedule ev p d s) = http_servers s"
  "switches (schedule ev p d s) = switches s"
  "pcs (schedule ev p d s) = pcs s"
  "data_loss (schedule ev p d s) = data_loss s"
  "latencies (schedule ev p d s) = latencies s"
  "delays (schedule ev p d s) = delays s"
  "overall_latencies (schedule ev p d s) = overall_latencies s"
  "overall_delays (schedule ev p d s) = overall_delays s"
  "switch_stats (schedule ev p d s) = switch_stats s"
  "printed (schedule ev p d s) = printed s"
  by (simp_all add: schedule_def)

lemma upd_switch_fields [simp]:
  "now (upd_switch sw f s) = now s"
  "eid (upd_switch sw f s) = eid s"
  "queue (upd_switch sw f s) = queue s"
  "drawn (upd_switch sw f s) = drawn s"
  "http_servers (upd_switch sw f s) = http_servers s"
  "pcs (upd_switch sw f s) = pcs s"
  "data_loss (upd_switch sw f s) = data_loss s"
  "latencies (upd_switch sw f s) = latencies s"
  "delays (upd_switch sw f s) = delays s"
  "overall_latencies (upd_switch sw f s) = overall_latencies s"
  "overall_delays (upd_switch sw f s) = overall_delays s"
  "switch_stats (upd_switch sw f s) = switch_stats s"
  "printed (upd_switch sw f s) = printed s"
  by (simp_all add: upd_switch_def)

lemma set_frame_fields [simp]:
  "now (set_frame i fr s) = now s"
  "eid (set_frame i fr s) = eid s"
  "queue (set_frame i fr s) = queue s"
  "drawn (set_frame i fr s) = drawn s"
  "http_servers (set_frame i fr s) = http_servers s"
  "switches (set_frame i fr s) = switches s"
  "data_loss (set_frame i fr s) = data_loss s"
  "latencies (set_frame i fr s) = latencies s"
  "delays (set_frame i fr s) = delays s"
  "overall_latencies (set_frame i fr s) = overall_latencies s"
  "overall_delays (set_frame i fr s) = overall_delays s"
  "switch_stats (set_frame i fr s) = switch_stats s"
  "printed (set_frame i fr s) = printed s"
  by (simp_all add: set_frame_def)

lemma trigger_put_fields [simp]:
  "now (trigger_put sw s) = now s"
  "drawn (trigger_put sw s) = drawn s"
  "http_servers (trigger_put sw s) = http_servers s"
  "pcs (trigger_put sw s) = pcs s"
  "data_loss (trigger_put sw s) = data_loss s"
  "latencies (trigger_put sw s) = latencies s"
  "delays (trigger_put sw s) = delays s"
  "overall_latencies (trigger_put sw s) = overall_latencies s"
  "overall_delays (trigger_put sw s) = overall_delays s"
  "switch_stats (trigger_put sw s) = switch_stats s"
  "printed (trigger_put sw s) = printed s"
  by (simp_all add: trigger_put_def Let_def split: list.splits)

lemma request_put_fields [simp]:
  "now (request_put sw e s) = now s"
  "drawn (request_put sw e s) = drawn s"
  "http_servers (request_put sw e s) = http_servers s"
  "pcs (request_put sw e s) = pcs s"
  "data_loss (request_put sw e s) = data_loss s"
  "latencies (request_put sw e s) = latencies s"
  "delays (request_put sw e s) = delays s"
  "overall_latencies (request_put sw e s) = overall_latencies s"
  "overall_delays (request_put sw e s) = overall_delays s"
  "switch_stats (request_put sw e s) = switch_stats s"
  "printed (request_put sw e s) = printed s"
  by (simp_all add: request_put_def)

lemma release_fields [simp]:
  "now (release sw e s) = now s"
  "drawn (release sw e s) = drawn s"
  "http_servers (release sw e s) = http_servers s"
  "pcs (release sw e s) = pcs s"
  "data_loss (release sw e s) = data_loss s"
  "latencies (release sw e s) = latencies s"
  "delays (release sw e s) = delays s"
  "overall_latencies (release sw e s) = overall_latencies s"
  "overall_delays (release sw e s) = overall_delays s"
  "switch_stats (release sw e s) = switch_stats s"
  "printed (release sw e s) = printed s"
  by (simp_all add: release_def)

lemma pc_fails_fields [simp]:
  "now (pc_fails i err s) = now s"
  "drawn (pc_fails i err s) = drawn s"
  "http_servers (pc_fails i err s) = http_servers s"
  "switches (pc_fails i err s) = switches s"
  "data_loss (pc_fails i err s) = data_loss s"
  "latencies (pc_fails i err s) = latencies s"
  "delays (pc_fails i err s) = delays s"
  "overall_latencies (pc_fails i err s) = overall_latencies s"
  "overall_delays (pc_fails i err s) = overall_delays s"
  "switch_stats (pc_fails i err s) = switch_stats s"
  "printed (pc_fails i err s) = printed s"
  by (simp_all add: pc_fails_def)

lemma loop_head_fields [simp]:
  "now (loop_head cfg g i k s) = now s"
  "http_servers (loop_head cfg g i k s) = http_servers s"
  "switches (loop_head cfg g i k s) = switches s"
  "data_loss (loop_head cfg g i k s) = data_loss s"
  "latencies (loop_head cfg g i k s) = latencies s"
  "delays (loop_head cfg g i k s) = delays s"
  "overall_latencies (loop_head cfg g i k s) = overall_latencies s"
  "overall_delays (loop_head cfg g i k s) = overall_delays s"
  "switch_stats (loop_head cfg g i k s) = switch_stats s"
  "printed (loop_head cfg g i k s) = printed s"
  by (simp_all add: loop_head_def Let_def)

lemma issue_request_fields [simp]:
  "now (issue_request cfg g i k s) = now s"
  "http_servers (issue_request cfg g i k s) = http_servers s"
  "data_loss (issue_request cfg g i k s) = data_loss s"
  "latencies (issue_request cfg g i k s) = latencies s"
  "delays (issue_request cfg g i k s) = delays s"
  "overall_latencies (issue_request cfg g i k s) = overall_latencies s"
  "overall_delays (issue_request cfg g i k s) = overall_delays s"
  "printed (issue_request cfg g i k s) = printed s"
  by (simp_all add: issue_request_def Let_def split: option.splits)

lemma after_grant_fields [simp]:
  "now (after_grant cfg g i k rt sw srv r s) = now s"
  "http_servers (after_grant cfg g i k rt sw srv r s) = http_servers s"
  "latencies (after_grant cfg g i k rt sw srv r s) = latencies s"
  "delays (after_grant cfg g i k rt sw srv r s) = delays s"
  "overall_latencies (after_grant cfg g i k rt sw srv r s) = overall_latencies s"
  "overall_delays (after_grant cfg g i k rt sw srv r s) = overall_delays s"
  "switch_stats (after_grant cfg g i k rt sw srv r s) = switch_stats s"
  "printed (after_grant cfg g i k rt sw srv r s) = printed s"
  by (simp_all add: after_grant_def Let_def)

lemma after_service_fields [simp]:
  "now (after_service cfg g i k rt sw srv r st s) = now s"
  "http_servers (after_service cfg g i k rt sw srv r st s) = http_servers s"
  "data_loss (after_service cfg g i k rt sw srv r st s) = data_loss s"
  "switch_stats (after_service cfg g i k rt sw srv r st s) = switch_stats s"
  "printed (after_service cfg g i k rt sw srv r st s) = printed s"
  by (simp_all add: after_service_def Let_def)

lemma service_failed_fields [simp]:
  "now (service_failed i sw r err s) = now s"
  "drawn (service_failed i sw r err s) = drawn s"
  "http_servers (service_failed i sw r err s) = http_servers s"
  "data_loss (service_failed i sw r err s) = data_loss s"
  "latencies (service_failed i sw r err s) = latencies s"
  "delays (service_failed i sw r err s) = delays s"
  "overall_latencies (service_failed i sw r err s) = overall_latencies s"
  "overall_delays (service_failed i sw r err s) = overall_delays s"
  "switch_stats (service_failed i sw r err s) = switch_stats s"
  "printed (service_failed i sw r err s) = printed s"
  by (simp_all add: service_failed_def)

lemma handler_start_fields [simp]:
  "now (handler_start cfg g i j s) = now s"
  "http_servers (handler_start cfg g i j s) = http_servers s"
  "switches (handler_start cfg g i j s) = switches s"
  "pcs (handler_start cfg g i j s) = pcs s"
  "data_loss (handler_start cfg g i j s) = data_loss s"
  "latencies (handler_start cfg g i j s) = latencies s"
  "delays (handler_start cfg g i j s) = delays s"
  "overall_latencies (handler_start cfg g i j s) = overall_latencies s"
  "overall_delays (handler_start cfg g i j s) = overall_delays s"
  "switch_stats (handler_start cfg g i j s) = switch_stats s"
  "printed (handler_start cfg g i j s) = printed s"
  by (simp_all add: handler_start_def Let_def)

lemma handler_done_fields [simp]:
  "now (handler_done i j s) = now s"
  "drawn (handler_done i j s) = drawn s"
  "http_servers (handler_done i j s) = http_servers s"
  "switches (handler_done i j s) = switches s"
  "pcs (handler_done i j s) = pcs s"
  "data_loss (handler_done i j s) = data_loss s"
  "latencies (handler_done i j s) = latencies s"
  "delays (handler_done i j s) = delays s"
  "overall_latencies (handler_done i j s) = overall_latencies s"
  "overall_delays (handler_done i j s) = overall_delays s"
  "switch_stats (handler_done i j s) = switch_stats s"
  by (simp_all add: handler_done_def)


subsection \<open>Case analysis of a step\<close>

lemma step_cases:
  assumes "step cfg g s = Some (Inr s')"
  obtains t p n ev q where "heappop (queue s) = Some ((t, p, n, ev), q)"
    and "dispatch cfg g ev (s\<lparr>now := t, queue := q\<rparr>) = Inr s'"
  using assms by (auto simp add: step_def split: option.splits prod.splits)

lemma dispatch_cases [consumes 1, case_names init_pc init_handler think_over served granted released service_ok service_err idle]:
  assumes "dispatch cfg g ev s = Inr s'"
  obtains
    i where "ev = Initialize (PCProc i)" "s' = loop_head cfg g i 0 s"
  | i j where "ev = Initialize (HandlerProc i j)" "s' = handler_start cfg g i j s"
  | i k where "ev = Timeout (PCProc i)" "frame (pcs s ! i) = Thinking k"
      "s' = issue_request cfg g i k s"
  | i j where "ev = Timeout (HandlerProc i j)" "s' = handler_done i j s"
  | sw e k rt sw' srv r where "ev = RequestEv sw e"
      "frame (pcs s ! proc e) = AwaitGrant k rt sw' srv r"
      "s' = after_grant cfg g (proc e) k rt sw' srv r s"
  | sw where "ev = ReleaseEv sw" "s' = trigger_put sw s"
  | i j k rt sw srv r st where "ev = ProcessEv (HandlerProc i j) None"
      "frame (pcs s ! i) = AwaitService k rt sw srv r st"
      "s' = after_service cfg g i k rt sw srv r st s"
  | i j err k rt sw srv r st where "ev = ProcessEv (HandlerProc i j) (Some err)"
      "frame (pcs s ! i) = AwaitService k rt sw srv r st"
      "s' = service_failed i sw r err s"
  | "s' = s"
proof (cases ev)
  case (Initialize p)
  show ?thesis
  proof (cases p)
    case (PCProc i)
    with Initialize assms have "s' = loop_head cfg g i 0 s" by simp
    with Initialize PCProc show ?thesis by (intro that(1)) simp_all
  next
    case (HandlerProc i j)
    with Initialize assms have "s' = handler_start cfg g i j s" by simp
    with Initialize HandlerProc show ?thesis by (intro that(2)) simp_all
  qed
next
  case (Timeout p)
  show ?thesis
  proof (cases p)
    case (PCProc i)
    show ?thesis
    proof (cases "frame (pcs s ! i)")
      case (Thinking k)
      with Timeout PCProc assms have "s' = issue_request cfg g i k s" by simp
      with Timeout PCProc Thinking show ?thesis by (intro that(3)) simp_all
    qed (use Timeout PCProc assms in \<open>simp_all add: that(9)\<close>)
  next
    case (HandlerProc i j)
    with Timeout assms have "s' = handler_done i j s" by simp
    with Timeout HandlerProc show ?thesis by (intro that(4)) simp_all
  qed
next
  case (RequestEv sw e)
  show ?thesis
  proof (cases "frame (pcs s ! proc e)")
    case (AwaitGrant k rt sw' srv r)
    with RequestEv assms have "s' = after_grant cfg g (proc e) k rt sw' srv r s" by simp
    with RequestEv AwaitGrant show ?thesis by (intro that(5)) simp_all
  qed (use RequestEv assms in \<open>simp_all add: that(9)\<close>)
next
  case (ReleaseEv sw)
  with assms have "s' = trigger_put sw s" by simp
  with ReleaseEv show ?thesis by (intro that(6)) simp_all
next
  case (ProcessEv p res)
  show ?thesis
  proof (cases p)
    case (PCProc i)
    with ProcessEv assms have "s' = s" by (cases res) simp_all
    then show ?thesis by (rule that(9))
  next
    case (HandlerProc i j)
    show ?thesis
    proof (cases "frame (pcs s ! i)")
      case (AwaitService k rt sw srv r st)
      show ?thesis
      proof (cases res)
        case None
        with ProcessEv HandlerProc AwaitService assms
        have "s' = after_service cfg g i k rt sw srv r st s" by simp
        with ProcessEv HandlerProc AwaitService None show ?thesis by (intro that(7)) simp_all
      next
        case (Some err)
        with ProcessEv HandlerProc AwaitService assms
        have "s' = service_failed i sw r err s" by simp
        with ProcessEv HandlerProc AwaitService Some show ?thesis by (intro that(8)) simp_all
      qed
    next
      case NotStarted
      with ProcessEv HandlerProc assms have "s' = s" by (cases res) simp_all
      then show ?thesis by (rule that(9))
    next
      case (Thinking k)
      with ProcessEv HandlerProc assms have "s' = s" by (cases res) simp_all
      then show ?thesis by (rule that(9))
    next
      case (AwaitGrant k rt sw srv r)
      with ProcessEv HandlerProc assms have "s' = s" by (cases res) simp_all
      then show ?thesis by (rule that(9))
    next
      case Finished
      with ProcessEv HandlerProc assms have "s' = s" by (cases res) simp_all
      then show ?thesis by (rule that(9))
    qed
  qed
qed

lemma reachable_advance: "reachable cfg g s \<Longrightarrow> reachable cfg g (advance cfg g s)"
  by (auto simp add: advance_def split: option.splits sum.splits intro: reach_step)

lemma reachable_state_after:
  "\<not> isl (setup_simulation cfg) \<Longrightarrow> reachable cfg g (state_after n cfg g)"
proof (induction n)
  case 0
  then show ?case
    by (cases "setup_simulation cfg") (auto simp add: state_after_def intro: reach_init)
next
  case (Suc n)
  then show ?case by (simp add: state_after_def reachable_advance)
qed

subsection \<open>Evaluation on concrete inputs\<close>

lemma string_of_nat_1: "string_of_nat (Suc 0) = ''1''"
  by (simp add: string_of_nat.simps)

lemma py_random_zero_draws: "py_random zero_draws n = 0"
  by (simp add: py_random_def zero_draws_def)

lemma heappop_single: "heappop [e] = Some (e, [])"
  by (simp add: heappop_def)

lemmas eval_simps = setup_simulation_def deployment_def add_pc_def schedule_def
  URGENT_def NORMAL_def string_of_nat_1 step_def heappop_single loop_head_def uniform_def
  set_frame_def issue_request_def pc_fails_def py_random_zero_draws advance_def state_after_def
  initial_switch_stats_def new_switch_def randbelow_def request_put_def trigger_put_def
  upd_switch_def put_queue_append_def new_request_def after_grant_def handler_start_def
  handler_done_def after_service_def release_def Let_def heappop_def less_prod_def
  entry_key_def empty_stats_def

lemma setup_scenario: "\<not> isl (setup_simulation scenario)"
  by (simp add: scenario_def eval_simps)

lemma scenario_switches_2:
  "switches (state_after 2 scenario zero_draws) =
     [\<lparr>switch_name = ''FIFO Switch 1'', kind = FIFO, capacity = 1, users = [Request 0],
       put_queue = []\<rparr>]"
  by (simp add: scenario_def eval_simps numeral_2_eq_2)

subsection \<open>The outcomes of each operation\<close>

lemma loop_head_cases [case_names think negative finished]:
  obtains
    "k < NUM_REQUESTS cfg" "0 \<le> uniform g (drawn s) (think_lo cfg) (think_hi cfg)"
      "loop_head cfg g i k s =
         schedule (Timeout (PCProc i)) NORMAL (uniform g (drawn s) (think_lo cfg) (think_hi cfg))
           (set_frame i (Thinking k) (s\<lparr>drawn := Suc (drawn s)\<rparr>))"
  | "k < NUM_REQUESTS cfg" "uniform g (drawn s) (think_lo cfg) (think_hi cfg) < 0"
      "loop_head cfg g i k s = pc_fails i ValueError (s\<lparr>drawn := Suc (drawn s)\<rparr>)"
  | "\<not> k < NUM_REQUESTS cfg"
      "loop_head cfg g i k s = schedule (ProcessEv (PCProc i) None) NORMAL 0 (set_frame i Finished s)"
  by (cases "k < NUM_REQUESTS cfg"; cases "uniform g (drawn s) (think_lo cfg) (think_hi cfg) < 0")
     (simp_all add: loop_head_def Let_def)

lemma handler_start_cases [case_names serve negative]:
  obtains
    "0 \<le> uniform g (drawn s) (service_lo cfg) (service_hi cfg)"
      "handler_start cfg g i j s =
         schedule (Timeout (HandlerProc i j)) NORMAL
           (uniform g (drawn s) (service_lo cfg) (service_hi cfg)) (s\<lparr>drawn := Suc (drawn s)\<rparr>)"
  | "uniform g (drawn s) (service_lo cfg) (service_hi cfg) < 0"
      "handler_start cfg g i j s =
         schedule (ProcessEv (HandlerProc i j) (Some ValueError)) NORMAL 0 (s\<lparr>drawn := Suc (drawn s)\<rparr>)"
  by (cases "uniform g (drawn s) (service_lo cfg) (service_hi cfg) < 0")
     (simp_all add: handler_start_def Let_def)

lemma trigger_put_cases [case_names nobody full grant]:
  obtains
    "put_queue (switches s ! sw) = []" "trigger_put sw s = s"
  | e rest where "put_queue (switches s ! sw) = e # rest"
      "\<not> int (length (users (switches s ! sw))) < capacity (switches s ! sw)"
      "trigger_put sw s = s"
  | e rest where "put_queue (switches s ! sw) = e # rest"
      "int (length (users (switches s ! sw))) < capacity (switches s ! sw)"
      "trigger_put sw s =
         schedule (RequestEv sw e) NORMAL 0
           (upd_switch sw (\<lambda>x. x\<lparr>users := users x @ [e], put_queue := rest\<rparr>) s)"
  by (cases "put_queue (switches s ! sw)";
      cases "int (length (users (switches s ! sw))) < capacity (switches s ! sw)")
     (simp_all add: trigger_put_def Let_def)

lemma issue_request_cases [case_names no_switch no_server no_stats request]:
  obtains
    "switches s = []" "issue_request cfg g i k s = pc_fails i IndexError s"
  | "switches s \<noteq> []" "http_servers s = []"
      "issue_request cfg g i k s = pc_fails i IndexError (s\<lparr>drawn := Suc (drawn s)\<rparr>)"
  | sw where "switches s \<noteq> []" "http_servers s \<noteq> []"
      "sw = randbelow g (drawn s) (length (switches s))"
      "switch_stats s (switch_name (switches s ! sw)) = None"
      "issue_request cfg g i k s = pc_fails i KeyError (s\<lparr>drawn := Suc (Suc (drawn s))\<rparr>)"
  | sw srv st r where "switches s \<noteq> []" "http_servers s \<noteq> []"
      "sw = randbelow g (drawn s) (length (switches s))"
      "srv = randbelow g (Suc (drawn s)) (length (http_servers s))"
      "switch_stats s (switch_name (switches s ! sw)) = Some st"
      "r = new_request (kind (switches s ! sw)) i (now s)"
      "issue_request cfg g i k s =
         set_frame i (AwaitGrant k (now s) sw srv r)
           (request_put sw r
              (s\<lparr>drawn := Suc (Suc (drawn s)),
                 switch_stats := (switch_stats s)(switch_name (switches s ! sw) \<mapsto>
                    st\<lparr>queue_lengths := queue_lengths st @ [length (put_queue (switches s ! sw))]\<rparr>)\<rparr>))"
proof (cases "switches s = []")
  case True
  then show ?thesis by (intro that(1)) (simp_all add: issue_request_def)
next
  case sw: False
  show ?thesis
  proof (cases "http_servers s = []")
    case True
    with sw show ?thesis by (intro that(2)) (simp_all add: issue_request_def Let_def)
  next
    case srv: False
    show ?thesis
    proof (cases "switch_stats s (switch_name (switches s ! randbelow g (drawn s) (length (switches s))))")
      case None
      with sw srv show ?thesis by (intro that(3)) (simp_all add: issue_request_def Let_def)
    next
      case (Some st)
      with sw srv show ?thesis by (intro that(4)) (simp_all add: issue_request_def Let_def)
    qed
  qed
qed

lemma after_grant_cases [case_names loss serve]:
  obtains
    "py_random g (drawn s) < loss_prob cfg"
      "after_grant cfg g i k rt sw srv r s =
         loop_head cfg g i (Suc k)
           (release sw r (s\<lparr>drawn := Suc (drawn s),
              data_loss := (data_loss s)(kind (switches s ! sw) := data_loss s (kind (switches s ! sw)) + 1)\<rparr>))"
  | "\<not> py_random g (drawn s) < loss_prob cfg"
      "after_grant cfg g i k rt sw srv r s =
         schedule (Initialize (HandlerProc i srv)) URGENT 0
           (set_frame i (AwaitService k rt sw srv r (now s)) (s\<lparr>drawn := Suc (drawn s)\<rparr>))"
  by (cases "py_random g (drawn s) < loss_prob cfg") (simp_all add: after_grant_def Let_def)

lemma after_service_eq:
  "after_service cfg g i k rt sw srv r st s =
     loop_head cfg g i (Suc k)
       (release sw r
          (s\<lparr>pcs := (pcs s)[i := (pcs s ! i)\<lparr>successful_requests := successful_requests (pcs s ! i) + 1\<rparr>],
             overall_latencies := overall_latencies s @ [now s - st],
             overall_delays := overall_delays s @ [now s - rt],
             latencies := (latencies s)(kind (switches s ! sw) := latencies s (kind (switches s ! sw)) @ [now s - st]),
             delays := (delays s)(kind (switches s ! sw) := delays s (kind (switches s ! sw)) @ [now s - rt])\<rparr>))"
  by (cases "kind (switches s ! sw)") (simp_all add: after_service_def Let_def)

subsection \<open>Switches: name, class and capacity are fixed\<close>

lemma in_set_updateD: "z \<in> set (xs[i := y]) \<Longrightarrow> (z = y \<and> i < length xs) \<or> z \<in> set xs"
proof (cases "i < length xs")
  case True
  assume "z \<in> set (xs[i := y])"
  then show ?thesis using True set_update_subset_insert [of xs i y] by auto
next
  case False
  assume "z \<in> set (xs[i := y])"
  then show ?thesis using False by (simp add: list_update_beyond)
qed

lemma switches_upd_switch [simp]:
  "switches (upd_switch sw f s) = (switches s)[sw := f (switches s ! sw)]"
  by (simp add: upd_switch_def)

lemma switches_release:
  "switches (release sw e s) =
     (switches s)[sw := (switches s ! sw)\<lparr>users := remove1 e (users (switches s ! sw))\<rparr>]"
  by (simp add: release_def)

lemma switches_trigger_put:
  "switches (trigger_put sw s) =
     (case put_queue (switches s ! sw) of
        [] \<Rightarrow> switches s
      | e # rest \<Rightarrow>
          if int (length (users (switches s ! sw))) < capacity (switches s ! sw)
          then (switches s)[sw := (switches s ! sw)\<lparr>users := users (switches s ! sw) @ [e],
                                                    put_queue := rest\<rparr>]
          else switches s)"
  by (simp add: trigger_put_def Let_def split: list.splits)

lemma map_static_update:
  "sw_static y = sw_static (xs ! i) \<Longrightarrow> map sw_static (xs[i := y]) = map sw_static xs"
  by (cases "i < length xs") (simp_all add: map_update list_update_same_conv list_update_beyond)

lemma static_trigger_put [simp]:
  "map sw_static (switches (trigger_put sw s)) = map sw_static (switches s)"
  by (simp add: switches_trigger_put map_static_update sw_static_def split: list.splits)

lemma static_request_put [simp]:
  "map sw_static (switches (request_put sw e s)) = map sw_static (switches s)"
  by (simp add: request_put_def map_static_update sw_static_def)

lemma static_release [simp]:
  "map sw_static (switches (release sw e s)) = map sw_static (switches s)"
  by (simp add: switches_release map_static_update sw_static_def)

lemma static_issue_request [simp]:
  "map sw_static (switches (issue_request cfg g i k s)) = map sw_static (switches s)"
  by (cases rule: issue_request_cases [of s cfg g i k]) simp_all

lemma static_after_grant [simp]:
  "map sw_static (switches (after_grant cfg g i k rt sw srv r s)) = map sw_static (switches s)"
  by (cases rule: after_grant_cases [of g s cfg i k rt sw srv r]) simp_all

lemma static_after_service [simp]:
  "map sw_static (switches (after_service cfg g i k rt sw srv r st s)) = map sw_static (switches s)"
  by (simp add: after_service_eq)

lemma static_service_failed [simp]:
  "map sw_static (switches (service_failed i sw r err s)) = map sw_static (switches s)"
  by (simp add: service_failed_def)

lemma static_dispatch:
  "dispatch cfg g ev s = Inr s' \<Longrightarrow> map sw_static (switches s') = map sw_static (switches s)"
  by (erule dispatch_cases) simp_all

lemma static_step:
  "step cfg g s = Some (Inr s') \<Longrightarrow> map sw_static (switches s') = map sw_static (switches s)"
  by (erule step_cases) (auto dest: static_dispatch)

lemma length_switches_step:
  "step cfg g s = Some (Inr s') \<Longrightarrow> length (switches s') = length (switches s)"
  by (drule static_step) (erule map_eq_imp_length_eq)

lemma built_with_static: "built_with cap xs = (\<forall>x \<in> set (map sw_static xs). snd (snd x) = cap)"
  by (simp add: built_with_def sw_static_def)

lemma built_with_step:
  "step cfg g s = Some (Inr s') \<Longrightarrow> built_with cap (switches s) \<Longrightarrow> built_with cap (switches s')"
  by (drule static_step) (simp only: built_with_static)

lemma fold_add_pc_switches [simp]: "switches (fold add_pc ns s) = switches s"
  by (induction ns arbitrary: s) (simp_all add: add_pc_def)

lemma make_switches_good:
  "0 < cap \<Longrightarrow> make_switches d prefix cap ns acc =
     Inr (acc @ map (\<lambda>i. \<lparr>switch_name = prefix @ string_of_nat (i + 1), kind = d, capacity = cap,
                            users = [], put_queue = []\<rparr>) ns)"
  by (induction ns arbitrary: acc) (simp_all add: new_switch_def)

lemma make_switches_bad:
  "cap \<le> 0 \<Longrightarrow> ns \<noteq> [] \<Longrightarrow> make_switches d prefix cap ns acc = Inl ValueError"
  by (cases ns) (simp_all add: new_switch_def)

lemma make_switches_Inr:
  assumes "make_switches d prefix cap ns acc = Inr sws"
  shows "sws = acc @ map (\<lambda>i. \<lparr>switch_name = prefix @ string_of_nat (i + 1), kind = d,
                                   capacity = cap, users = [], put_queue = []\<rparr>) ns"
proof (cases "0 < cap")
  case True
  with assms show ?thesis by (simp add: make_switches_good)
next
  case False
  show ?thesis
  proof (cases ns)
    case Nil
    with assms show ?thesis by simp
  next
    case (Cons n ns')
    with False have "make_switches d prefix cap ns acc = Inl ValueError"
      by (intro make_switches_bad) simp_all
    with assms show ?thesis by simp
  qed
qed

lemma make_switches_built_with:
  "make_switches d prefix cap ns acc = Inr sws \<Longrightarrow> built_with cap acc \<Longrightarrow> built_with cap sws"
  by (drule make_switches_Inr) (auto simp add: built_with_def)

lemma built_with_init:
  "setup_simulation cfg = Inr s \<Longrightarrow> built_with (SWITCH_CAPACITY cfg) (switches s)"
  by (auto simp add: setup_simulation_def split: sum.splits
      dest!: make_switches_built_with simp add: built_with_def)

lemma built_with_reachable:
  "reachable cfg g s \<Longrightarrow> built_with (SWITCH_CAPACITY cfg) (switches s)"
  by (induction rule: reachable.induct) (auto intro: built_with_init built_with_step)

subsection \<open>Capacity\<close>

lemma within_capacity_update:
  "within_capacity xs \<Longrightarrow> (i < length xs \<Longrightarrow> int (length (users y)) \<le> capacity y) \<Longrightarrow>
   within_capacity (xs[i := y])"
  unfolding within_capacity_def by (blast dest: in_set_updateD)

lemma within_capacity_Nil [simp]: "within_capacity []"
  by (simp add: within_capacity_def)

lemma within_capacity_nth:
  "within_capacity xs \<Longrightarrow> i < length xs \<Longrightarrow> int (length (users (xs ! i))) \<le> capacity (xs ! i)"
  by (simp add: within_capacity_def)

lemma length_remove1_le: "length (remove1 x xs) \<le> length xs"
  by (induction xs) auto

lemma cap_trigger_put:
  "within_capacity (switches s) \<Longrightarrow> within_capacity (switches (trigger_put sw s))"
  by (simp add: switches_trigger_put within_capacity_update split: list.splits)

lemma cap_request_put:
  "within_capacity (switches s) \<Longrightarrow> within_capacity (switches (request_put sw e s))"
  unfolding request_put_def
  by (rule cap_trigger_put) (simp add: within_capacity_update within_capacity_nth)

lemma cap_release:
  "within_capacity (switches s) \<Longrightarrow> within_capacity (switches (release sw e s))"
proof -
  assume a: "within_capacity (switches s)"
  have "sw < length (switches s) \<Longrightarrow>
      int (length (remove1 e (users (switches s ! sw)))) \<le> capacity (switches s ! sw)"
    using within_capacity_nth [OF a, of sw] length_remove1_le [of e "users (switches s ! sw)"]
    by linarith
  with a show ?thesis by (simp add: switches_release within_capacity_update)
qed

lemma cap_issue_request:
  "within_capacity (switches s) \<Longrightarrow> within_capacity (switches (issue_request cfg g i k s))"
  by (cases rule: issue_request_cases [of s cfg g i k]) (simp_all add: cap_request_put)

lemma cap_after_grant:
  "within_capacity (switches s) \<Longrightarrow>
   within_capacity (switches (after_grant cfg g i k rt sw srv r s))"
  by (cases rule: after_grant_cases [of g s cfg i k rt sw srv r]) (simp_all add: cap_release)

lemma cap_after_service:
  "within_capacity (switches s) \<Longrightarrow>
   within_capacity (switches (after_service cfg g i k rt sw srv r st s))"
  by (simp add: after_service_eq cap_release)

lemma cap_service_failed:
  "within_capacity (switches s) \<Longrightarrow> within_capacity (switches (service_failed i sw r err s))"
  by (simp add: service_failed_def cap_release)

lemma cap_dispatch:
  "dispatch cfg g ev s = Inr s' \<Longrightarrow> within_capacity (switches s) \<Longrightarrow>
   within_capacity (switches s')"
  by (erule dispatch_cases)
     (simp_all add: cap_issue_request cap_after_grant cap_after_service cap_service_failed
        cap_trigger_put)

lemma cap_step:
  "step cfg g s = Some (Inr s') \<Longrightarrow> within_capacity (switches s) \<Longrightarrow>
   within_capacity (switches s')"
  by (erule step_cases) (auto dest: cap_dispatch)

lemma make_switches_within_capacity:
  "make_switches d prefix cap ns acc = Inr sws \<Longrightarrow> within_capacity acc \<Longrightarrow> within_capacity sws"
proof -
  assume m: "make_switches d prefix cap ns acc = Inr sws" and a: "within_capacity acc"
  have "ns = [] \<or> 0 < cap"
  proof (cases "0 < cap")
    case False
    then have le: "cap \<le> 0" by simp
    have "ns = []"
    proof (rule ccontr)
      assume "ns \<noteq> []"
      from make_switches_bad [OF le this, of d prefix acc] m show False by simp
    qed
    then show ?thesis ..
  qed simp
  then have "\<forall>i \<in> set ns. 0 \<le> cap" by auto
  with a make_switches_Inr [OF m] show ?thesis
    by (auto simp add: within_capacity_def)
qed

lemma cap_init: "setup_simulation cfg = Inr s \<Longrightarrow> within_capacity (switches s)"
  by (auto simp add: setup_simulation_def split: sum.splits
      dest!: make_switches_within_capacity simp add: within_capacity_def)

lemma within_capacity_reachable: "reachable cfg g s \<Longrightarrow> within_capacity (switches s)"
  by (induction rule: reachable.induct) (auto intro: cap_init cap_step)

text \<open>
  C2. In every state of a run, every switch has at most as many requests in \<open>users\<close>
  (slots held) as its capacity, and that capacity is \<open>SWITCH_CAPACITY\<close>, which is 1 in
  the deployment.
\<close>

theorem held_slots_within_capacity:
  "reachable cfg g s \<Longrightarrow> sw \<in> set (switches s) \<Longrightarrow>
   int (length (users sw)) \<le> capacity sw \<and> capacity sw = SWITCH_CAPACITY cfg"
  using within_capacity_reachable [of cfg g s] built_with_reachable [of cfg g s]
  by (simp add: within_capacity_def built_with_def)

theorem held_slots_within_capacity_witness:
  "users (switches (state_after 2 scenario zero_draws) ! 0) = [Request 0] \<and>
   int (length (users (switches (state_after 2 scenario zero_draws) ! 0)))
     \<le> capacity (switches (state_after 2 scenario zero_draws) ! 0) \<and>
   capacity (switches (state_after 2 scenario zero_draws) ! 0) = SWITCH_CAPACITY scenario"
proof -
  have r: "reachable scenario zero_draws (state_after 2 scenario zero_draws)"
    by (rule reachable_state_after [OF setup_scenario])
  have m: "switches (state_after 2 scenario zero_draws) ! 0
             \<in> set (switches (state_after 2 scenario zero_draws))"
    by (simp add: scenario_switches_2)
  from held_slots_within_capacity [OF r m] show ?thesis
    by (simp add: scenario_switches_2)
qed

subsection \<open>The event heap\<close>

lemma earliest_in: "earliest e xs \<in> set (e # xs)"
  by (induction xs arbitrary: e) auto

lemma earliest_le: "x \<in> set (e # xs) \<Longrightarrow> entry_key (earliest e xs) \<le> entry_key x"
proof (induction xs arbitrary: e x)
  case Nil
  then show ?case by simp
next
  case (Cons y ys)
  let ?e = "if entry_key y < entry_key e then y else e"
  have le_e: "entry_key (earliest ?e ys) \<le> entry_key ?e"
    using Cons.IH [of ?e ?e] by simp
  show ?case
  proof (cases "x \<in> set ys")
    case True
    then show ?thesis using Cons.IH [of x ?e] by simp
  next
    case False
    with Cons.prems have "x = e \<or> x = y" by auto
    with le_e show ?thesis by (auto split: if_splits)
  qed
qed

lemma heappop_Some:
  assumes "heappop q = Some (m, q')"
  shows "m \<in> set q" and "q' = remove1 m q" and "\<forall>e \<in> set q. entry_key m \<le> entry_key e"
proof -
  from assms obtain e es where q: "q = e # es" and m: "m = earliest e es"
    and q': "q' = remove1 (earliest e es) q"
    by (auto simp add: heappop_def split: list.splits)
  show "m \<in> set q" using earliest_in [of e es] by (simp only: q m)
  show "q' = remove1 m q" by (simp only: q' m)
  show "\<forall>e \<in> set q. entry_key m \<le> entry_key e"
    using earliest_le [of _ e es] by (simp only: q m) blast
qed

lemma key_le_time: "entry_key a \<le> entry_key b \<Longrightarrow> fst a \<le> fst b"
  by (auto simp add: entry_key_def less_eq_prod_def)

subsection \<open>The clock never runs ahead of the schedule\<close>

lemma queue_schedule:
  "queue (schedule ev p d s) = queue s @ [(now s + d, p, eid s, ev)]"
  by (simp add: schedule_def)

lemma ahead_schedule:
  "scheduled_ahead s \<Longrightarrow> 0 \<le> d \<Longrightarrow> scheduled_ahead (schedule ev p d s)"
  by (simp add: scheduled_ahead_def queue_schedule)

lemma ahead_upd_switch [simp]: "scheduled_ahead (upd_switch sw f s) = scheduled_ahead s"
  by (simp add: scheduled_ahead_def)

lemma ahead_set_frame [simp]: "scheduled_ahead (set_frame i fr s) = scheduled_ahead s"
  by (simp add: scheduled_ahead_def)

lemma ahead_record [simp]:
  "scheduled_ahead (s\<lparr>drawn := a\<rparr>) = scheduled_ahead s"
  "scheduled_ahead (s\<lparr>switch_stats := b\<rparr>) = scheduled_ahead s"
  "scheduled_ahead (s\<lparr>data_loss := c\<rparr>) = scheduled_ahead s"
  "scheduled_ahead (s\<lparr>pcs := d\<rparr>) = scheduled_ahead s"
  "scheduled_ahead (s\<lparr>overall_latencies := e\<rparr>) = scheduled_ahead s"
  "scheduled_ahead (s\<lparr>overall_delays := f\<rparr>) = scheduled_ahead s"
  "scheduled_ahead (s\<lparr>latencies := h\<rparr>) = scheduled_ahead s"
  "scheduled_ahead (s\<lparr>delays := k\<rparr>) = scheduled_ahead s"
  "scheduled_ahead (s\<lparr>printed := l\<rparr>) = scheduled_ahead s"
  by (simp_all add: scheduled_ahead_def)

lemma ahead_trigger_put: "scheduled_ahead s \<Longrightarrow> scheduled_ahead (trigger_put sw s)"
  by (cases rule: trigger_put_cases [of s sw]) (simp_all add: ahead_schedule)

lemma ahead_request_put: "scheduled_ahead s \<Longrightarrow> scheduled_ahead (request_put sw e s)"
  by (simp add: request_put_def ahead_trigger_put)

lemma ahead_release: "scheduled_ahead s \<Longrightarrow> scheduled_ahead (release sw e s)"
  by (simp add: release_def ahead_schedule)

lemma ahead_pc_fails: "scheduled_ahead s \<Longrightarrow> scheduled_ahead (pc_fails i err s)"
  by (simp add: pc_fails_def ahead_schedule)

lemma ahead_loop_head: "scheduled_ahead s \<Longrightarrow> scheduled_ahead (loop_head cfg g i k s)"
  by (cases rule: loop_head_cases [of k cfg g s i]) (simp_all add: ahead_schedule ahead_pc_fails)

lemma ahead_issue_request: "scheduled_ahead s \<Longrightarrow> scheduled_ahead (issue_request cfg g i k s)"
  by (cases rule: issue_request_cases [of s cfg g i k])
     (simp_all add: ahead_pc_fails ahead_request_put)

lemma ahead_after_grant:
  "scheduled_ahead s \<Longrightarrow> scheduled_ahead (after_grant cfg g i k rt sw srv r s)"
  by (cases rule: after_grant_cases [of g s cfg i k rt sw srv r])
     (simp_all add: ahead_loop_head ahead_release ahead_schedule)

lemma ahead_after_service:
  "scheduled_ahead s \<Longrightarrow> scheduled_ahead (after_service cfg g i k rt sw srv r st s)"
  by (simp add: after_service_eq ahead_loop_head ahead_release)

lemma ahead_service_failed:
  "scheduled_ahead s \<Longrightarrow> scheduled_ahead (service_failed i sw r err s)"
  by (simp add: service_failed_def ahead_pc_fails ahead_release)

lemma ahead_handler_start: "scheduled_ahead s \<Longrightarrow> scheduled_ahead (handler_start cfg g i j s)"
  by (cases rule: handler_start_cases [of g s cfg i j]) (simp_all add: ahead_schedule)

lemma ahead_handler_done: "scheduled_ahead s \<Longrightarrow> scheduled_ahead (handler_done i j s)"
  by (simp add: handler_done_def ahead_schedule)

lemma ahead_dispatch:
  "dispatch cfg g ev s = Inr s' \<Longrightarrow> scheduled_ahead s \<Longrightarrow> scheduled_ahead s'"
  by (erule dispatch_cases)
     (simp_all add: ahead_loop_head ahead_handler_start ahead_issue_request ahead_handler_done
        ahead_after_grant ahead_trigger_put ahead_after_service ahead_service_failed)

lemma ahead_pop:
  assumes "heappop (queue s) = Some ((t, p, n, ev), q)" and "scheduled_ahead s"
  shows "now s \<le> t" and "scheduled_ahead (s\<lparr>now := t, queue := q\<rparr>)"
proof -
  note h = heappop_Some [OF assms(1)]
  from h(1) assms(2) show "now s \<le> t" by (auto simp add: scheduled_ahead_def)
  have "t \<le> fst e" if "e \<in> set q" for e
  proof -
    from that h(2) have "e \<in> set (queue s)"
      using set_remove1_subset [of "(t, p, n, ev)" "queue s"] by auto
    with h(3) have "entry_key (t, p, n, ev) \<le> entry_key e" by blast
    then have "fst (t, p, n, ev) \<le> fst e" by (rule key_le_time)
    then show ?thesis by simp
  qed
  then show "scheduled_ahead (s\<lparr>now := t, queue := q\<rparr>)" by (simp add: scheduled_ahead_def)
qed

lemma ahead_step: "step cfg g s = Some (Inr s') \<Longrightarrow> scheduled_ahead s \<Longrightarrow> scheduled_ahead s'"
proof (erule step_cases)
  fix t p n ev q
  assume h: "heappop (queue s) = Some ((t, p, n, ev), q)" and a: "scheduled_ahead s"
    and d: "dispatch cfg g ev (s\<lparr>now := t, queue := q\<rparr>) = Inr s'"
  from h a have "scheduled_ahead (s\<lparr>now := t, queue := q\<rparr>)" by (rule ahead_pop(2))
  with d show "scheduled_ahead s'" by (rule ahead_dispatch)
qed

lemma now_dispatch: "dispatch cfg g ev s = Inr s' \<Longrightarrow> now s' = now s"
  by (erule dispatch_cases) simp_all

lemma now_step: "step cfg g s = Some (Inr s') \<Longrightarrow> scheduled_ahead s \<Longrightarrow> now s \<le> now s'"
proof (erule step_cases)
  fix t p n ev q
  assume h: "heappop (queue s) = Some ((t, p, n, ev), q)" and a: "scheduled_ahead s"
    and d: "dispatch cfg g ev (s\<lparr>now := t, queue := q\<rparr>) = Inr s'"
  from h a have "now s \<le> t" by (rule ahead_pop(1))
  with now_dispatch [OF d] show "now s \<le> now s'" by simp
qed

lemma fold_add_pc_now [simp]: "now (fold add_pc ns s) = now s"
  by (induction ns arbitrary: s) (simp_all add: add_pc_def)

lemma fold_add_pc_ahead: "scheduled_ahead s \<Longrightarrow> scheduled_ahead (fold add_pc ns s)"
proof (induction ns arbitrary: s)
  case Nil
  then show ?case by simp
next
  case (Cons n ns)
  have "scheduled_ahead (add_pc n s)"
    using Cons.prems by (simp add: add_pc_def ahead_schedule)
  then show ?case by (simp add: Cons.IH)
qed

lemma make_switches_pos:
  assumes "make_switches d prefix cap ns acc = Inr sws" and "ns \<noteq> []"
  shows "0 < cap"
proof (rule ccontr)
  assume "\<not> 0 < cap"
  then have "cap \<le> 0" by simp
  from make_switches_bad [OF this assms(2), of d prefix acc] assms(1) show False by simp
qed

lemma setup_simulation_Inr:
  assumes "setup_simulation cfg = Inr s"
  obtains sws where "s = fold add_pc [0..<NUM_PCS cfg]
      \<lparr>now = 0, eid = 0, queue = [], drawn = 0,
       http_servers = map (\<lambda>i. ''Server'' @ string_of_nat (i + 1)) [0..<NUM_SERVERS cfg],
       switches = sws, pcs = [],
       data_loss = (\<lambda>_. 0), latencies = (\<lambda>_. []), delays = (\<lambda>_. []),
       overall_latencies = [], overall_delays = [],
       switch_stats = fold (\<lambda>sw m. m(switch_name sw \<mapsto> empty_stats)) sws
                        (initial_switch_stats (NUM_SWITCHES cfg)),
       printed = []\<rparr>"
    and "sws = map (\<lambda>i. \<lparr>switch_name = ''FIFO Switch '' @ string_of_nat (i + 1), kind = FIFO,
                          capacity = SWITCH_CAPACITY cfg, users = [], put_queue = []\<rparr>)
                 [0..<FIFO_COUNT cfg]
             @ map (\<lambda>i. \<lparr>switch_name = ''Priority Switch '' @ string_of_nat (i + 1),
                            kind = Priority, capacity = SWITCH_CAPACITY cfg, users = [],
                            put_queue = []\<rparr>)
                 [0..<PRIORITY_COUNT cfg]"
    and "sws \<noteq> [] \<longrightarrow> 0 < SWITCH_CAPACITY cfg"
proof -
  from assms obtain fifos sws where
    f: "make_switches FIFO ''FIFO Switch '' (SWITCH_CAPACITY cfg) [0..<FIFO_COUNT cfg] [] = Inr fifos"
    and p: "make_switches Priority ''Priority Switch '' (SWITCH_CAPACITY cfg)
              [0..<PRIORITY_COUNT cfg] fifos = Inr sws"
    and s: "s = fold add_pc [0..<NUM_PCS cfg]
      \<lparr>now = 0, eid = 0, queue = [], drawn = 0,
       http_servers = map (\<lambda>i. ''Server'' @ string_of_nat (i + 1)) [0..<NUM_SERVERS cfg],
       switches = sws, pcs = [],
       data_loss = (\<lambda>_. 0), latencies = (\<lambda>_. []), delays = (\<lambda>_. []),
       overall_latencies = [], overall_delays = [],
       switch_stats = fold (\<lambda>sw m. m(switch_name sw \<mapsto> empty_stats)) sws
                        (initial_switch_stats (NUM_SWITCHES cfg)),
       printed = []\<rparr>"
    by (auto simp add: setup_simulation_def split: sum.splits)
  have sws: "sws = map (\<lambda>i. \<lparr>switch_name = ''FIFO Switch '' @ string_of_nat (i + 1), kind = FIFO,
                          capacity = SWITCH_CAPACITY cfg, users = [], put_queue = []\<rparr>)
                 [0..<FIFO_COUNT cfg]
             @ map (\<lambda>i. \<lparr>switch_name = ''Priority Switch '' @ string_of_nat (i + 1),
                            kind = Priority, capacity = SWITCH_CAPACITY cfg, users = [],
                            put_queue = []\<rparr>)
                 [0..<PRIORITY_COUNT cfg]"
    using make_switches_Inr [OF f] make_switches_Inr [OF p] by simp
  have pos: "sws \<noteq> [] \<longrightarrow> 0 < SWITCH_CAPACITY cfg"
  proof
    assume "sws \<noteq> []"
    with sws have "[0..<FIFO_COUNT cfg] \<noteq> [] \<or> [0..<PRIORITY_COUNT cfg] \<noteq> []" by auto
    then show "0 < SWITCH_CAPACITY cfg"
      using make_switches_pos [OF f] make_switches_pos [OF p] by blast
  qed
  from s sws pos show ?thesis by (rule that)
qed

lemma ahead_init: "setup_simulation cfg = Inr s \<Longrightarrow> scheduled_ahead s"
proof (erule setup_simulation_Inr)
  fix sws
  let ?s0 = "\<lparr>now = 0, eid = 0, queue = [], drawn = 0,
       http_servers = map (\<lambda>i. ''Server'' @ string_of_nat (i + 1)) [0..<NUM_SERVERS cfg],
       switches = sws, pcs = [],
       data_loss = (\<lambda>_. 0), latencies = (\<lambda>_. []), delays = (\<lambda>_. []),
       overall_latencies = [], overall_delays = [],
       switch_stats = fold (\<lambda>sw m. m(switch_name sw \<mapsto> empty_stats)) sws
                        (initial_switch_stats (NUM_SWITCHES cfg)),
       printed = []\<rparr>"
  assume s: "s = fold add_pc [0..<NUM_PCS cfg] ?s0"
  have "scheduled_ahead ?s0" by (simp add: scheduled_ahead_def)
  then show "scheduled_ahead s" unfolding s by (rule fold_add_pc_ahead)
qed

lemma ahead_reachable: "reachable cfg g s \<Longrightarrow> scheduled_ahead s"
  by (induction rule: reachable.induct) (auto intro: ahead_init ahead_step)

subsection \<open>The order of the waiting requests\<close>

lemma ball_update:
  "\<forall>x \<in> set xs. Q x \<Longrightarrow> (i < length xs \<Longrightarrow> Q y) \<Longrightarrow> \<forall>x \<in> set (xs[i := y]). Q x"
  by (blast dest: in_set_updateD)

lemma waiting_mono: "waiting_in_order t sw \<Longrightarrow> t \<le> t' \<Longrightarrow> waiting_in_order t' sw"
  by (fastforce simp add: waiting_in_order_def default_key_before_def)

lemma waiters_mono: "waiters_in_order t xs \<Longrightarrow> t \<le> t' \<Longrightarrow> waiters_in_order t' xs"
  by (auto simp add: waiters_in_order_def intro: waiting_mono)

lemma waiters_update:
  "waiters_in_order t xs \<Longrightarrow> (i < length xs \<Longrightarrow> waiting_in_order t y) \<Longrightarrow>
   waiters_in_order t (xs[i := y])"
  unfolding waiters_in_order_def by (rule ball_update)

lemma waiters_nth: "waiters_in_order t xs \<Longrightarrow> i < length xs \<Longrightarrow> waiting_in_order t (xs ! i)"
  by (simp add: waiters_in_order_def)

lemma sort_key_snoc:
  "sorted (map f xs) \<Longrightarrow> \<forall>x \<in> set xs. f x \<le> f y \<Longrightarrow> sort_key f (xs @ [y]) = xs @ [y]"
  by (rule sort_key_id_if_sorted) (simp add: sorted_append)

lemma key_default_le:
  "default_key_before t r \<Longrightarrow> key r \<le> key (PriorityRequest i 0 t True)"
  by (auto simp add: default_key_before_def less_eq_prod_def)

lemma priority_append_is_fifo:
  assumes "waiting_in_order t sw"
  shows "put_queue_append (kind sw) (put_queue sw) (new_request (kind sw) i t)
           = put_queue sw @ [new_request (kind sw) i t]"
proof (cases "kind sw")
  case FIFO
  then show ?thesis by (simp add: put_queue_append_def)
next
  case Priority
  with assms have srt: "sorted (map key (put_queue sw))"
    and "\<forall>r \<in> set (put_queue sw). default_key_before t r"
    by (simp_all add: waiting_in_order_def)
  then have "\<forall>r \<in> set (put_queue sw). key r \<le> key (PriorityRequest i 0 t True)"
    by (blast intro: key_default_le)
  with srt Priority show ?thesis
    by (simp add: put_queue_append_def new_request_def sort_key_snoc)
qed

lemma waiting_snoc:
  assumes "waiting_in_order t sw"
  shows "waiting_in_order t (sw\<lparr>put_queue := put_queue sw @ [new_request (kind sw) i t]\<rparr>)"
proof (cases "kind sw")
  case FIFO
  then show ?thesis by (simp add: waiting_in_order_def)
next
  case Priority
  with assms have srt: "sorted (map key (put_queue sw))"
    and d: "\<forall>r \<in> set (put_queue sw). default_key_before t r"
    by (simp_all add: waiting_in_order_def)
  from d have "\<forall>r \<in> set (put_queue sw). key r \<le> key (PriorityRequest i 0 t True)"
    by (blast intro: key_default_le)
  with srt d Priority show ?thesis
    by (auto simp add: waiting_in_order_def new_request_def sorted_append default_key_before_def)
qed

lemma waiting_tail:
  "waiting_in_order t sw \<Longrightarrow> put_queue sw = e # rest \<Longrightarrow>
   waiting_in_order t (sw\<lparr>users := us, put_queue := rest\<rparr>)"
  by (simp add: waiting_in_order_def)

lemma waiting_users: "waiting_in_order t sw \<Longrightarrow> waiting_in_order t (sw\<lparr>users := us\<rparr>)"
  by (simp add: waiting_in_order_def)

lemma waiters_trigger_put:
  "waiters_in_order t (switches s) \<Longrightarrow> waiters_in_order t (switches (trigger_put sw s))"
  by (cases rule: trigger_put_cases [of s sw])
     (simp_all add: waiters_update waiters_nth waiting_tail)

lemma request_put_is_fifo:
  assumes "waiters_in_order (now s) (switches s)" and "sw < length (switches s)"
  shows "request_put sw (new_request (kind (switches s ! sw)) i (now s)) s
           = fifo_request_put sw (new_request (kind (switches s ! sw)) i (now s)) s"
  using priority_append_is_fifo [OF waiters_nth [OF assms], of i]
  by (simp add: request_put_def fifo_request_put_def upd_switch_def)

lemma waiters_request_put:
  assumes "waiters_in_order (now s) (switches s)"
    and "r = new_request (kind (switches s ! sw)) i (now s)"
  shows "waiters_in_order (now s) (switches (request_put sw r s))"
proof (cases "sw < length (switches s)")
  case True
  have "waiters_in_order (now s)
      ((switches s)[sw := (switches s ! sw)\<lparr>put_queue := put_queue (switches s ! sw) @ [r]\<rparr>])"
    using assms True by (simp add: waiters_update waiters_nth waiting_snoc)
  then have "waiters_in_order (now s)
      (switches (upd_switch sw (\<lambda>x. x\<lparr>put_queue := put_queue x @ [r]\<rparr>) s))"
    by simp
  then have "waiters_in_order (now s) (switches (fifo_request_put sw r s))"
    unfolding fifo_request_put_def by (rule waiters_trigger_put)
  with request_put_is_fifo [OF assms(1) True, of i] assms(2) show ?thesis by simp
next
  case False
  then have "waiters_in_order (now s)
      (switches (upd_switch sw
         (\<lambda>x. x\<lparr>put_queue := put_queue_append (kind x) (put_queue x) r\<rparr>) s))"
    using assms(1) by (simp add: list_update_beyond)
  then show ?thesis unfolding request_put_def by (rule waiters_trigger_put)
qed

lemma waiters_release:
  "waiters_in_order t (switches s) \<Longrightarrow> waiters_in_order t (switches (release sw e s))"
  by (simp add: switches_release waiters_update waiters_nth waiting_users)

lemma waiters_issue_request:
  "waiters_in_order (now s) (switches s) \<Longrightarrow>
   waiters_in_order (now s) (switches (issue_request cfg g i k s))"
proof (cases rule: issue_request_cases [of s cfg g i k])
  case (request sw srv st r)
  assume a: "waiters_in_order (now s) (switches s)"
  let ?s = "s\<lparr>drawn := Suc (Suc (drawn s)),
                 switch_stats := (switch_stats s)(switch_name (switches s ! sw) \<mapsto>
                    st\<lparr>queue_lengths := queue_lengths st @ [length (put_queue (switches s ! sw))]\<rparr>)\<rparr>"
  have "waiters_in_order (now ?s) (switches (request_put sw r ?s))"
    by (rule waiters_request_put [where i = i]) (simp_all add: a request(6))
  with request(7) show ?thesis by simp
qed simp_all

lemma waiters_after_grant:
  "waiters_in_order t (switches s) \<Longrightarrow>
   waiters_in_order t (switches (after_grant cfg g i k rt sw srv r s))"
proof (cases rule: after_grant_cases [of g s cfg i k rt sw srv r])
  case loss
  assume a: "waiters_in_order t (switches s)"
  let ?s = "s\<lparr>drawn := Suc (drawn s),
              data_loss := (data_loss s)(kind (switches s ! sw) := data_loss s (kind (switches s ! sw)) + 1)\<rparr>"
  have "waiters_in_order t (switches (release sw r ?s))"
    by (rule waiters_release) (simp add: a)
  with loss(2) show ?thesis by simp
qed simp_all

lemma waiters_after_service:
  "waiters_in_order t (switches s) \<Longrightarrow>
   waiters_in_order t (switches (after_service cfg g i k rt sw srv r st s))"
proof -
  assume a: "waiters_in_order t (switches s)"
  let ?s = "s\<lparr>pcs := (pcs s)[i := (pcs s ! i)\<lparr>successful_requests := successful_requests (pcs s ! i) + 1\<rparr>],
             overall_latencies := overall_latencies s @ [now s - st],
             overall_delays := overall_delays s @ [now s - rt],
             latencies := (latencies s)(kind (switches s ! sw) := latencies s (kind (switches s ! sw)) @ [now s - st]),
             delays := (delays s)(kind (switches s ! sw) := delays s (kind (switches s ! sw)) @ [now s - rt])\<rparr>"
  have "waiters_in_order t (switches (release sw r ?s))"
    by (rule waiters_release) (simp add: a)
  then show ?thesis by (simp add: after_service_eq)
qed

lemma waiters_service_failed:
  "waiters_in_order t (switches s) \<Longrightarrow>
   waiters_in_order t (switches (service_failed i sw r err s))"
  using waiters_release [of t s sw r] by (simp add: service_failed_def)

lemma waiters_dispatch:
  "dispatch cfg g ev s = Inr s' \<Longrightarrow> waiters_in_order (now s) (switches s) \<Longrightarrow>
   waiters_in_order (now s') (switches s')"
  by (erule dispatch_cases)
     (simp_all add: waiters_issue_request waiters_after_grant waiters_trigger_put
        waiters_after_service waiters_service_failed)

lemma waiters_step:
  assumes "step cfg g s = Some (Inr s')" and "scheduled_ahead s"
    and "waiters_in_order (now s) (switches s)"
  shows "waiters_in_order (now s') (switches s')"
  using assms(1)
proof (rule step_cases)
  fix t p n ev q
  assume h: "heappop (queue s) = Some ((t, p, n, ev), q)"
    and d: "dispatch cfg g ev (s\<lparr>now := t, queue := q\<rparr>) = Inr s'"
  from h assms(2) have "now s \<le> t" by (rule ahead_pop(1))
  with assms(3) have "waiters_in_order (now (s\<lparr>now := t, queue := q\<rparr>)) (switches (s\<lparr>now := t, queue := q\<rparr>))"
    by (simp add: waiters_mono)
  with d show ?thesis by (rule waiters_dispatch)
qed

lemma waiters_init: "setup_simulation cfg = Inr s \<Longrightarrow> waiters_in_order (now s) (switches s)"
  by (erule setup_simulation_Inr) (auto simp add: waiters_in_order_def waiting_in_order_def)

lemma waiters_reachable: "reachable cfg g s \<Longrightarrow> waiters_in_order (now s) (switches s)"
  by (induction rule: reachable.induct) (auto intro: waiters_init waiters_step ahead_reachable)

lemma setup_contention: "\<not> isl (setup_simulation contention)"
  by (simp add: contention_def eval_simps)

lemma string_of_nat_2: "string_of_nat 2 = ''2''"
  by (simp add: string_of_nat.simps)

lemma contention_4:
  "switches (state_after 4 contention zero_draws) =
     [\<lparr>switch_name = ''Priority Switch 1'', kind = Priority, capacity = 1,
       users = [PriorityRequest 0 0 (1 / 10) True],
       put_queue = [PriorityRequest 1 0 (1 / 10) True]\<rparr>]"
  "now (state_after 4 contention zero_draws) = 1 / 10"
  by (simp_all add: contention_def eval_simps eval_nat_numeral string_of_nat_2)

subsection \<open>The statistics of the switches\<close>

lemma switch_names_static: "switch_names s = fst ` set (map sw_static (switches s))"
  by (force simp add: switch_names_def sw_static_def)

lemma switch_names_step: "step cfg g s = Some (Inr s') \<Longrightarrow> switch_names s' = switch_names s"
  by (drule static_step) (simp only: switch_names_static)

lemma randbelow_less: "0 < n \<Longrightarrow> randbelow g k n < n"
  by (simp add: randbelow_def)

text \<open>The only write to \<open>switch_stats\<close> in a step is the sample of line 44.\<close>

lemma stats_dispatch:
  assumes "dispatch cfg g ev s = Inr s'"
  shows "switch_stats s' = switch_stats s \<or>
    (\<exists>sw st. sw < length (switches s) \<and>
       switch_stats s (switch_name (switches s ! sw)) = Some st \<and>
       switch_stats s' = (switch_stats s)(switch_name (switches s ! sw) \<mapsto>
          st\<lparr>queue_lengths := queue_lengths st @ [length (put_queue (switches s ! sw))]\<rparr>))"
  using assms
proof (cases rule: dispatch_cases)
  case (think_over i k)
  show ?thesis
  proof (cases rule: issue_request_cases [of s cfg g i k])
    case (request sw srv st r)
    from request(1,3) have "sw < length (switches s)" by (simp add: randbelow_less)
    with request(5,7) think_over(3) show ?thesis by auto
  qed (simp_all add: think_over(3))
qed simp_all

lemma stats_step:
  assumes "step cfg g s = Some (Inr s')"
  shows "switch_stats s' = switch_stats s \<or>
    (\<exists>sw st. sw < length (switches s) \<and>
       switch_stats s (switch_name (switches s ! sw)) = Some st \<and>
       switch_stats s' = (switch_stats s)(switch_name (switches s ! sw) \<mapsto>
          st\<lparr>queue_lengths := queue_lengths st @ [length (put_queue (switches s ! sw))]\<rparr>))"
  using assms
proof (rule step_cases)
  fix t p n ev q
  assume "dispatch cfg g ev (s\<lparr>now := t, queue := q\<rparr>) = Inr s'"
  from stats_dispatch [OF this] show ?thesis by simp
qed

lemma stats_shape_sample:
  assumes "stats_shape names m" and "m k = Some st" and "k \<in> names"
  shows "stats_shape names (m(k \<mapsto> st\<lparr>queue_lengths := ql\<rparr>))"
  using assms by (auto simp add: stats_shape_def)

lemma dom_sample: "m k = Some st \<Longrightarrow> dom (m(k \<mapsto> st')) = dom m"
  by (simp add: insert_absorb domI)

lemma stats_shape_step:
  assumes "step cfg g s = Some (Inr s')" and "stats_shape (switch_names s) (switch_stats s)"
  shows "stats_shape (switch_names s') (switch_stats s') \<and> dom (switch_stats s') = dom (switch_stats s)"
proof -
  from stats_step [OF assms(1)] show ?thesis
  proof
    assume "switch_stats s' = switch_stats s"
    with assms show ?thesis by (simp add: switch_names_step)
  next
    assume "\<exists>sw st. sw < length (switches s) \<and>
       switch_stats s (switch_name (switches s ! sw)) = Some st \<and>
       switch_stats s' = (switch_stats s)(switch_name (switches s ! sw) \<mapsto>
          st\<lparr>queue_lengths := queue_lengths st @ [length (put_queue (switches s ! sw))]\<rparr>)"
    then obtain sw st where sw: "sw < length (switches s)"
      and st: "switch_stats s (switch_name (switches s ! sw)) = Some st"
      and s': "switch_stats s' = (switch_stats s)(switch_name (switches s ! sw) \<mapsto>
          st\<lparr>queue_lengths := queue_lengths st @ [length (put_queue (switches s ! sw))]\<rparr>)"
      by blast
    from sw have "switch_name (switches s ! sw) \<in> switch_names s"
      by (simp add: switch_names_def)
    with assms(2) st have "stats_shape (switch_names s) (switch_stats s')"
      unfolding s' by (intro stats_shape_sample)
    with st show ?thesis
      by (simp add: switch_names_step [OF assms(1)] s' insert_absorb domI)
  qed
qed

lemma fold_add_pc_stats [simp]: "switch_stats (fold add_pc ns s) = switch_stats s"
  by (induction ns arbitrary: s) (simp_all add: add_pc_def)

lemma fold_upd_lookup:
  "fold (\<lambda>x m. m(f x \<mapsto> v)) xs m0 k = (if k \<in> f ` set xs then Some v else m0 k)"
  by (induction xs arbitrary: m0) auto

lemma initial_switch_stats_lookup:
  "initial_switch_stats n k =
     (if k \<in> (\<lambda>i. ''Switch '' @ string_of_nat (i + 1)) ` {0..<n} then Some empty_stats else None)"
  unfolding initial_switch_stats_def by (simp add: fold_upd_lookup)

lemma setup_simulation_stats:
  assumes "setup_simulation cfg = Inr s"
  shows "switch_stats s k =
     (if k \<in> switch_names s \<or> k \<in> (\<lambda>i. ''Switch '' @ string_of_nat (i + 1)) ` {0..<NUM_SWITCHES cfg}
      then Some empty_stats else None)"
proof (rule setup_simulation_Inr [OF assms])
  fix sws
  let ?s0 = "\<lparr>now = 0, eid = 0, queue = [], drawn = 0,
       http_servers = map (\<lambda>i. ''Server'' @ string_of_nat (i + 1)) [0..<NUM_SERVERS cfg],
       switches = sws, pcs = [],
       data_loss = (\<lambda>_. 0), latencies = (\<lambda>_. []), delays = (\<lambda>_. []),
       overall_latencies = [], overall_delays = [],
       switch_stats = fold (\<lambda>sw m. m(switch_name sw \<mapsto> empty_stats)) sws
                        (initial_switch_stats (NUM_SWITCHES cfg)),
       printed = []\<rparr>"
  assume s: "s = fold add_pc [0..<NUM_PCS cfg] ?s0"
  have "switch_stats s = fold (\<lambda>sw m. m(switch_name sw \<mapsto> empty_stats)) sws
                        (initial_switch_stats (NUM_SWITCHES cfg))"
    and "switch_names s = switch_name ` set sws"
    unfolding s by (simp_all add: switch_names_def)
  then show ?thesis
    by (simp add: fold_upd_lookup initial_switch_stats_lookup)
qed

lemma stats_init:
  assumes "setup_simulation cfg = Inr s"
  shows "stats_shape (switch_names s) (switch_stats s)"
    and "dom (switch_stats s) = (\<lambda>i. ''Switch '' @ string_of_nat (i + 1)) ` {0..<NUM_SWITCHES cfg}
           \<union> switch_names s"
proof -
  note l = setup_simulation_stats [OF assms]
  show "stats_shape (switch_names s) (switch_stats s)"
    unfolding stats_shape_def by (auto simp add: l empty_stats_def split: if_splits)
  show "dom (switch_stats s) = (\<lambda>i. ''Switch '' @ string_of_nat (i + 1)) ` {0..<NUM_SWITCHES cfg}
           \<union> switch_names s"
    unfolding dom_def by (auto simp add: l split: if_splits)
qed

lemma stats_reachable:
  "reachable cfg g s \<Longrightarrow>
   stats_shape (switch_names s) (switch_stats s) \<and>
   dom (switch_stats s) = (\<lambda>i. ''Switch '' @ string_of_nat (i + 1)) ` {0..<NUM_SWITCHES cfg}
           \<union> switch_names s"
proof (induction rule: reachable.induct)
  case (reach_init s)
  then show ?case by (simp add: stats_init)
next
  case (reach_step s s')
  with stats_shape_step [OF reach_step(2)] show ?case
    by (simp add: switch_names_step [OF reach_step(2)])
qed

lemma upt_12: "[0..<12] = [0, 1, 2, 3, 4, 5, 6, 7, 8, 9, 10, 11]"
  by (simp add: upt_rec)

lemma upt_8: "[0..<8] = [0, 1, 2, 3, 4, 5, 6, 7]"
  by (simp add: upt_rec)

lemma sw_names_12:
  "map (\<lambda>i. ''Switch '' @ string_of_nat (i + 1)) [0..<12] =
    [''Switch 1'', ''Switch 2'', ''Switch 3'', ''Switch 4'', ''Switch 5'', ''Switch 6'',
     ''Switch 7'', ''Switch 8'', ''Switch 9'', ''Switch 10'', ''Switch 11'', ''Switch 12'']"
  by (simp add: upt_12 string_of_nat.simps)

lemma fifo_names_8:
  "map (\<lambda>i. ''FIFO Switch '' @ string_of_nat (i + 1)) [0..<8] =
    [''FIFO Switch 1'', ''FIFO Switch 2'', ''FIFO Switch 3'', ''FIFO Switch 4'',
     ''FIFO Switch 5'', ''FIFO Switch 6'', ''FIFO Switch 7'', ''FIFO Switch 8'']"
  by (simp add: upt_8 string_of_nat.simps)

lemma priority_names_8:
  "map (\<lambda>i. ''Priority Switch '' @ string_of_nat (i + 1)) [0..<8] =
    [''Priority Switch 1'', ''Priority Switch 2'', ''Priority Switch 3'', ''Priority Switch 4'',
     ''Priority Switch 5'', ''Priority Switch 6'', ''Priority Switch 7'', ''Priority Switch 8'']"
  by (simp add: upt_8 string_of_nat.simps)

lemma all_keys_distinct:
  "distinct (map (\<lambda>i. ''Switch '' @ string_of_nat (i + 1)) [0..<12] @
     map (\<lambda>i. ''FIFO Switch '' @ string_of_nat (i + 1)) [0..<8] @
     map (\<lambda>i. ''Priority Switch '' @ string_of_nat (i + 1)) [0..<8])"
  unfolding sw_names_12 fifo_names_8 priority_names_8 by simp

lemma names_init:
  assumes "setup_simulation cfg = Inr s"
  shows "map switch_name (switches s) =
     map (\<lambda>i. ''FIFO Switch '' @ string_of_nat (i + 1)) [0..<FIFO_COUNT cfg] @
     map (\<lambda>i. ''Priority Switch '' @ string_of_nat (i + 1)) [0..<PRIORITY_COUNT cfg]"
  by (rule setup_simulation_Inr [OF assms]) (simp add: comp_def)

lemma map_name_static: "map switch_name xs = map fst (map sw_static xs)"
  by (simp add: sw_static_def comp_def)

lemma names_reachable:
  "reachable cfg g s \<Longrightarrow>
   map switch_name (switches s) =
     map (\<lambda>i. ''FIFO Switch '' @ string_of_nat (i + 1)) [0..<FIFO_COUNT cfg] @
     map (\<lambda>i. ''Priority Switch '' @ string_of_nat (i + 1)) [0..<PRIORITY_COUNT cfg]"
proof (induction rule: reachable.induct)
  case (reach_init s)
  then show ?case by (rule names_init)
next
  case (reach_step s s')
  from static_step [OF reach_step(2)] have "map switch_name (switches s') = map switch_name (switches s)"
    by (simp only: map_name_static)
  with reach_step(3) show ?case by simp
qed

lemma deployment_names:
  assumes "reachable deployment g s"
  shows "map switch_name (switches s) =
    [''FIFO Switch 1'', ''FIFO Switch 2'', ''FIFO Switch 3'', ''FIFO Switch 4'',
     ''FIFO Switch 5'', ''FIFO Switch 6'', ''FIFO Switch 7'', ''FIFO Switch 8'',
     ''Priority Switch 1'', ''Priority Switch 2'', ''Priority Switch 3'', ''Priority Switch 4'',
     ''Priority Switch 5'', ''Priority Switch 6'', ''Priority Switch 7'', ''Priority Switch 8'']"
  using names_reachable [OF assms] fifo_names_8 priority_names_8
  by (simp add: deployment_def)

lemma deployment_keys:
  assumes "reachable deployment g s"
  shows "dom (switch_stats s) =
     set (map (\<lambda>i. ''Switch '' @ string_of_nat (i + 1)) [0..<12] @
          map (\<lambda>i. ''FIFO Switch '' @ string_of_nat (i + 1)) [0..<8] @
          map (\<lambda>i. ''Priority Switch '' @ string_of_nat (i + 1)) [0..<8])"
  using stats_reachable [OF assms] names_reachable [OF assms]
  by (simp add: deployment_def switch_names_def)

text \<open>
  C10. In every state of a run of the deployment, so also when the run ends:
  \<open>switch_stats\<close> has 28 keys, for 16 switches; no utilization sample was ever recorded;
  the keys \<open>Switch 1\<close> to \<open>Switch 12\<close> of line 22 name no switch and still hold two empty
  lists; a non-empty list of queue lengths is under the name of a switch; and a step
  changes \<open>switch_stats\<close> only by appending the length of a switch's put queue under the
  name of that switch.
\<close>

theorem switch_stats_of_deployment:
  assumes "reachable deployment g s"
  shows "card (dom (switch_stats s)) = 28 \<and> length (switches s) = 16 \<and>
    (\<forall>k st. switch_stats s k = Some st \<longrightarrow> utilization st = []) \<and>
    (\<forall>i \<in> {1..12}. ''Switch '' @ string_of_nat i \<notin> switch_names s \<and>
        switch_stats s (''Switch '' @ string_of_nat i) = Some empty_stats) \<and>
    (\<forall>k st. switch_stats s k = Some st \<longrightarrow> queue_lengths st \<noteq> [] \<longrightarrow> k \<in> switch_names s) \<and>
    (\<forall>s'. step deployment g s = Some (Inr s') \<longrightarrow>
        switch_stats s' = switch_stats s \<or>
        (\<exists>sw st. sw < length (switches s) \<and>
           switch_stats s (switch_name (switches s ! sw)) = Some st \<and>
           switch_stats s' = (switch_stats s)(switch_name (switches s ! sw) \<mapsto>
             st\<lparr>queue_lengths := queue_lengths st @ [length (put_queue (switches s ! sw))]\<rparr>)))"
proof (intro conjI)
  note shape = stats_reachable [OF assms, THEN conjunct1]
  note names = deployment_names [OF assms]
  show "card (dom (switch_stats s)) = 28"
    unfolding deployment_keys [OF assms] using distinct_card [OF all_keys_distinct] by simp
  from names have "length (map switch_name (switches s)) = 16" by simp
  then show "length (switches s) = 16" by simp
  from shape show "\<forall>k st. switch_stats s k = Some st \<longrightarrow> utilization st = []"
    by (simp add: stats_shape_def)
  from shape show "\<forall>k st. switch_stats s k = Some st \<longrightarrow> queue_lengths st \<noteq> [] \<longrightarrow> k \<in> switch_names s"
    unfolding stats_shape_def by blast
  show "\<forall>s'. step deployment g s = Some (Inr s') \<longrightarrow>
        switch_stats s' = switch_stats s \<or>
        (\<exists>sw st. sw < length (switches s) \<and>
           switch_stats s (switch_name (switches s ! sw)) = Some st \<and>
           switch_stats s' = (switch_stats s)(switch_name (switches s ! sw) \<mapsto>
             st\<lparr>queue_lengths := queue_lengths st @ [length (put_queue (switches s ! sw))]\<rparr>))"
    by (blast dest: stats_step)
  show "\<forall>i \<in> {1..12}. ''Switch '' @ string_of_nat i \<notin> switch_names s \<and>
        switch_stats s (''Switch '' @ string_of_nat i) = Some empty_stats"
  proof
    fix i :: nat
    assume "i \<in> {1..12}"
    then have i: "''Switch '' @ string_of_nat i \<in> set (map (\<lambda>i. ''Switch '' @ string_of_nat (i + 1)) [0..<12])"
      by (auto simp add: image_iff intro!: bexI [of _ "i - 1"])
    have notin: "''Switch '' @ string_of_nat i \<notin> switch_names s"
      using i all_keys_distinct names fifo_names_8 priority_names_8
      by (auto simp add: switch_names_def)
    from i have "''Switch '' @ string_of_nat i \<in> dom (switch_stats s)"
      by (simp add: deployment_keys [OF assms])
    then obtain st where st: "switch_stats s (''Switch '' @ string_of_nat i) = Some st" by blast
    with shape notin have "utilization st = []" "queue_lengths st = []"
      unfolding stats_shape_def by blast+
    then have "st = empty_stats" by (simp add: empty_stats_def)
    with st notin show "''Switch '' @ string_of_nat i \<notin> switch_names s \<and>
        switch_stats s (''Switch '' @ string_of_nat i) = Some empty_stats" by simp
  qed
qed

lemma setup_deployment: "\<not> isl (setup_simulation deployment)"
  by (simp add: setup_simulation_def deployment_def make_switches_good)

lemma string_of_nat_3: "string_of_nat 3 = ''3''"
  by (simp add: string_of_nat.simps)

theorem switch_stats_of_deployment_witness:
  "card (dom (switch_stats (state_after 40 deployment zero_draws))) = 28 \<and>
   length (switches (state_after 40 deployment zero_draws)) = 16 \<and>
   ''Switch 3'' \<notin> switch_names (state_after 40 deployment zero_draws) \<and>
   switch_stats (state_after 40 deployment zero_draws) ''Switch 3'' = Some empty_stats"
proof -
  have r: "reachable deployment zero_draws (state_after 40 deployment zero_draws)"
    by (rule reachable_state_after [OF setup_deployment])
  note t = switch_stats_of_deployment [OF r]
  from t have c: "card (dom (switch_stats (state_after 40 deployment zero_draws))) = 28"
    by (rule conjunct1)
  from t have l: "length (switches (state_after 40 deployment zero_draws)) = 16"
    by (rule conjunct2 [THEN conjunct1])
  from t have "\<forall>i \<in> {1..12}.
      ''Switch '' @ string_of_nat i \<notin> switch_names (state_after 40 deployment zero_draws) \<and>
      switch_stats (state_after 40 deployment zero_draws) (''Switch '' @ string_of_nat i)
        = Some empty_stats"
    by (rule conjunct2 [THEN conjunct2, THEN conjunct2, THEN conjunct1])
  then have "''Switch '' @ string_of_nat 3 \<notin> switch_names (state_after 40 deployment zero_draws) \<and>
      switch_stats (state_after 40 deployment zero_draws) (''Switch '' @ string_of_nat 3)
        = Some empty_stats"
    by (rule bspec) simp
  with c l show ?thesis by (simp add: string_of_nat_3)
qed

subsection \<open>A request arrives at a switch\<close>

lemma set_put_queue_append: "set (put_queue_append d q r) = insert r (set q)"
  by (cases d) (simp_all add: put_queue_append_def)

lemma pcs_set_frame: "pcs (set_frame i fr s) = (pcs s)[i := (pcs s ! i)\<lparr>frame := fr\<rparr>]"
  by (simp add: set_frame_def)

lemma frame_set_frame: "i < length (pcs s) \<Longrightarrow> frame (pcs (set_frame i fr s) ! i) = fr"
  by (simp add: set_frame_def)

lemma request_put_holds:
  assumes "sw < length (switches s)"
  shows "r \<in> set (put_queue (switches (request_put sw r s) ! sw)) \<or>
         r \<in> set (users (switches (request_put sw r s) ! sw))"
proof -
  let ?s = "upd_switch sw (\<lambda>x. x\<lparr>put_queue := put_queue_append (kind x) (put_queue x) r\<rparr>) s"
  have q: "r \<in> set (put_queue (switches ?s ! sw))"
    using assms by (simp add: set_put_queue_append)
  have l: "sw < length (switches ?s)" using assms by simp
  have "r \<in> set (put_queue (switches (trigger_put sw ?s) ! sw)) \<or>
        r \<in> set (users (switches (trigger_put sw ?s) ! sw))"
  proof (cases rule: trigger_put_cases [of ?s sw])
    case nobody
    with q show ?thesis by simp
  next
    case (full e rest)
    with q show ?thesis by simp
  next
    case (grant e rest)
    from q grant(1) have "r = e \<or> r \<in> set rest" by simp
    with l show ?thesis unfolding grant(3) by auto
  qed
  then show ?thesis by (simp only: request_put_def)
qed

lemma names_in_stats:
  "reachable cfg g s \<Longrightarrow> sw < length (switches s) \<Longrightarrow>
   \<exists>st. switch_stats s (switch_name (switches s ! sw)) = Some st"
  using stats_reachable [of cfg g s]
  by (auto simp add: stats_shape_def switch_names_def)

lemma sample_on_dispatch:
  assumes "switch_stats s (switch_name (switches s ! sw)) = Some st0"
    and "i < length (pcs s)" and "frame (pcs s ! i) = Thinking k"
    and "switches s \<noteq> []" and "http_servers s \<noteq> []"
    and "sw = randbelow g (drawn s) (length (switches s))"
  shows "\<exists>st s'. dispatch cfg g (Timeout (PCProc i)) s = Inr s' \<and>
      switch_stats s (switch_name (switches s ! sw)) = Some st \<and>
      switch_stats s' = (switch_stats s)(switch_name (switches s ! sw) \<mapsto>
         st\<lparr>queue_lengths := queue_lengths st @ [length (put_queue (switches s ! sw))]\<rparr>) \<and>
      (\<exists>srv r. frame (pcs s' ! i) = AwaitGrant k (now s) sw srv r \<and>
         (r \<in> set (put_queue (switches s' ! sw)) \<or> r \<in> set (users (switches s' ! sw))))"
proof -
  from assms(4,6) have l: "sw < length (switches s)" by (simp add: randbelow_less)
  note st0 = assms(1)
  show ?thesis
  proof (cases rule: issue_request_cases [of s cfg g i k])
    case no_switch
    with assms(4) show ?thesis by simp
  next
    case no_server
    with assms(5) show ?thesis by simp
  next
    case (no_stats sw')
    with st0 assms(6) show ?thesis by simp
  next
    case (request sw' srv st r)
    from request(3) assms(6) have sw': "sw' = sw" by simp
    let ?s = "s\<lparr>drawn := Suc (Suc (drawn s)),
                 switch_stats := (switch_stats s)(switch_name (switches s ! sw) \<mapsto>
                    st\<lparr>queue_lengths := queue_lengths st @ [length (put_queue (switches s ! sw))]\<rparr>)\<rparr>"
    have eq: "issue_request cfg g i k s = set_frame i (AwaitGrant k (now s) sw srv r) (request_put sw r ?s)"
      using request(7) by (simp only: sw')
    have "r \<in> set (put_queue (switches (request_put sw r ?s) ! sw)) \<or>
          r \<in> set (users (switches (request_put sw r ?s) ! sw))"
      by (rule request_put_holds) (simp add: l)
    then have held: "r \<in> set (put_queue (switches (issue_request cfg g i k s) ! sw)) \<or>
          r \<in> set (users (switches (issue_request cfg g i k s) ! sw))"
      by (simp add: eq)
    have fr: "frame (pcs (issue_request cfg g i k s) ! i) = AwaitGrant k (now s) sw srv r"
      unfolding eq by (rule frame_set_frame) (simp add: assms(2))
    have st: "switch_stats (issue_request cfg g i k s) = (switch_stats s)(switch_name (switches s ! sw) \<mapsto>
         st\<lparr>queue_lengths := queue_lengths st @ [length (put_queue (switches s ! sw))]\<rparr>)"
      by (simp add: eq)
    have d: "dispatch cfg g (Timeout (PCProc i)) s = Inr (issue_request cfg g i k s)"
      by (simp add: assms(3))
    from request(5) sw' have "switch_stats s (switch_name (switches s ! sw)) = Some st" by simp
    with d st fr held show ?thesis by blast
  qed
qed

lemma setup_lossy: "\<not> isl (setup_simulation lossy)"
  by (simp add: lossy_def eval_simps)

lemma step_popped:
  "heappop (queue s) = Some ((t, p, n, ev), q) \<Longrightarrow>
   step cfg g s = Some (dispatch cfg g ev (s\<lparr>now := t, queue := q\<rparr>))"
  by (simp add: step_def)

text \<open>
  C6. When the think time of a PC is over (and there is a switch and a server to choose),
  the step that resumes the PC appends exactly one sample to the statistics under the name of the
  chosen switch, the length of that switch's put queue as it is on arrival, before the
  request is made; nothing else of \<open>switch_stats\<close> changes. The request is made after
  that: the PC is suspended on it, and it is waiting at the switch or already holds a slot.
\<close>

theorem queue_length_sampled_on_arrival:
  assumes "reachable cfg g s"
    and "heappop (queue s) = Some ((t, p, n, Timeout (PCProc i)), q)"
    and "i < length (pcs s)" and "frame (pcs s ! i) = Thinking k"
    and "switches s \<noteq> []" and "http_servers s \<noteq> []"
    and "sw = randbelow g (drawn s) (length (switches s))"
  shows "\<exists>st s'. step cfg g s = Some (Inr s') \<and>
      switch_stats s (switch_name (switches s ! sw)) = Some st \<and>
      switch_stats s' = (switch_stats s)(switch_name (switches s ! sw) \<mapsto>
         st\<lparr>queue_lengths := queue_lengths st @ [length (put_queue (switches s ! sw))]\<rparr>) \<and>
      (\<exists>srv r. frame (pcs s' ! i) = AwaitGrant k t sw srv r \<and>
         (r \<in> set (put_queue (switches s' ! sw)) \<or> r \<in> set (users (switches s' ! sw))))"
proof -
  let ?s = "s\<lparr>now := t, queue := q\<rparr>"
  from assms(5,7) have "sw < length (switches s)" by (simp add: randbelow_less)
  from names_in_stats [OF assms(1) this] obtain st0
    where "switch_stats s (switch_name (switches s ! sw)) = Some st0" ..
  then have "switch_stats ?s (switch_name (switches ?s ! sw)) = Some st0" by simp
  from sample_on_dispatch [OF this, of i k g cfg] assms(3-7)
  show ?thesis by (simp add: step_popped [OF assms(2)])
qed

lemma scenario_1:
  "pcs (state_after (Suc 0) scenario zero_draws) =
     [\<lparr>pc_name = ''PC1'', successful_requests = 0, frame = Thinking 0\<rparr>]"
  "length (switches (state_after (Suc 0) scenario zero_draws)) = 1"
  "length (http_servers (state_after (Suc 0) scenario zero_draws)) = 1"
  "heappop (queue (state_after (Suc 0) scenario zero_draws)) =
     Some ((1 / 10, NORMAL, 1, Timeout (PCProc 0)), [])"
  by (simp_all add: scenario_def eval_simps)

theorem queue_length_sampled_on_arrival_witness:
  "\<exists>st s'. step scenario zero_draws (state_after (Suc 0) scenario zero_draws) = Some (Inr s') \<and>
      switch_stats (state_after (Suc 0) scenario zero_draws)
        (switch_name (switches (state_after (Suc 0) scenario zero_draws) ! 0)) = Some st \<and>
      switch_stats s' = (switch_stats (state_after (Suc 0) scenario zero_draws))
        (switch_name (switches (state_after (Suc 0) scenario zero_draws) ! 0) \<mapsto>
           st\<lparr>queue_lengths := queue_lengths st @
              [length (put_queue (switches (state_after (Suc 0) scenario zero_draws) ! 0))]\<rparr>) \<and>
      (\<exists>srv r. frame (pcs s' ! 0) = AwaitGrant 0 (1 / 10) 0 srv r \<and>
         (r \<in> set (put_queue (switches s' ! 0)) \<or> r \<in> set (users (switches s' ! 0))))"
proof -
  let ?s = "state_after (Suc 0) scenario zero_draws"
  have r: "reachable scenario zero_draws ?s"
    by (rule reachable_state_after [OF setup_scenario])
  have i: "0 < length (pcs ?s)" and f: "frame (pcs ?s ! 0) = Thinking 0"
    by (simp_all add: scenario_1)
  have sw: "switches ?s \<noteq> []" and srv: "http_servers ?s \<noteq> []"
    using scenario_1(2,3) by auto
  have c: "0 = randbelow zero_draws (drawn ?s) (length (switches ?s))"
    by (simp add: randbelow_def zero_draws_def)
  from queue_length_sampled_on_arrival [OF r scenario_1(4) i f sw srv c] show ?thesis .
qed

subsection \<open>A granted request is lost\<close>

lemma map_successful_set_frame [simp]:
  "map successful_requests (pcs (set_frame i fr s)) = map successful_requests (pcs s)"
  by (cases "i < length (pcs s)")
     (simp_all add: set_frame_def map_update list_update_same_conv list_update_beyond)

lemma queue_release:
  "queue (release sw r s) = queue s @ [(now s, NORMAL, eid s, ReleaseEv sw)]"
  by (simp add: release_def queue_schedule)

lemma eid_release: "eid (release sw r s) = Suc (eid s)"
  by (simp add: release_def schedule_def)

lemma pcs_pc_fails: "pcs (pc_fails i err s) = pcs (set_frame i Finished s)"
  by (simp add: pc_fails_def)

lemma queue_pc_fails:
  "queue (pc_fails i err s) = queue s @ [(now s, NORMAL, eid s, ProcessEv (PCProc i) (Some err))]"
  by (simp add: pc_fails_def queue_schedule)

lemma loss_on_dispatch:
  assumes "i < length (pcs s)" and "sw < length (switches s)"
    and "frame (pcs s ! i) = AwaitGrant k rt sw srv r" and "proc e = i"
    and "py_random g (drawn s) < loss_prob cfg"
  shows "\<exists>s' nxt. dispatch cfg g (RequestEv sw0 e) s = Inr s' \<and>
     data_loss s' = (data_loss s)(kind (switches s ! sw) := data_loss s (kind (switches s ! sw)) + 1) \<and>
     users (switches s' ! sw) = remove1 r (users (switches s ! sw)) \<and>
     queue s' = queue s @ [(now s, NORMAL, eid s, ReleaseEv sw), (nxt, NORMAL, Suc (eid s),
         if Suc k < NUM_REQUESTS cfg
         then if 0 \<le> uniform g (Suc (drawn s)) (think_lo cfg) (think_hi cfg)
              then Timeout (PCProc i) else ProcessEv (PCProc i) (Some ValueError)
         else ProcessEv (PCProc i) None)] \<and>
     latencies s' = latencies s \<and> delays s' = delays s \<and>
     overall_latencies s' = overall_latencies s \<and> overall_delays s' = overall_delays s \<and>
     printed s' = printed s \<and> switch_stats s' = switch_stats s \<and>
     map successful_requests (pcs s') = map successful_requests (pcs s) \<and>
     frame (pcs s' ! i) =
       (if Suc k < NUM_REQUESTS cfg \<and> 0 \<le> uniform g (Suc (drawn s)) (think_lo cfg) (think_hi cfg)
        then Thinking (Suc k) else Finished)"
proof -
  let ?s2 = "s\<lparr>drawn := Suc (drawn s),
              data_loss := (data_loss s)(kind (switches s ! sw) := data_loss s (kind (switches s ! sw)) + 1)\<rparr>"
  let ?s3 = "release sw r ?s2"
  have d: "dispatch cfg g (RequestEv sw0 e) s = Inr (after_grant cfg g i k rt sw srv r s)"
    using assms(3,4) by simp
  have ag: "after_grant cfg g i k rt sw srv r s = loop_head cfg g i (Suc k) ?s3"
    using assms(5) by (cases rule: after_grant_cases [of g s cfg i k rt sw srv r]) simp_all
  have us: "users (switches ?s3 ! sw) = remove1 r (users (switches s ! sw))"
    using assms(2) by (simp add: switches_release)
  have q3: "queue ?s3 = queue s @ [(now s, NORMAL, eid s, ReleaseEv sw)]"
    by (simp add: queue_release)
  have e3: "eid ?s3 = Suc (eid s)" by (simp add: eid_release)
  have l3: "i < length (pcs ?s3)" using assms(1) by simp
  have dr: "drawn ?s3 = Suc (drawn s)" by simp
  show ?thesis
  proof (cases rule: loop_head_cases [of "Suc k" cfg g ?s3 i])
    case think
    let ?s' = "schedule (Timeout (PCProc i)) NORMAL (uniform g (drawn ?s3) (think_lo cfg) (think_hi cfg))
           (set_frame i (Thinking (Suc k)) (?s3\<lparr>drawn := Suc (drawn ?s3)\<rparr>))"
    have s': "after_grant cfg g i k rt sw srv r s = ?s'" using ag think(3) by simp
    have "queue ?s' = queue s @ [(now s, NORMAL, eid s, ReleaseEv sw),
        (now s + uniform g (Suc (drawn s)) (think_lo cfg) (think_hi cfg), NORMAL, Suc (eid s), Timeout (PCProc i))]"
      by (simp add: queue_schedule queue_release eid_release)
    moreover have "frame (pcs ?s' ! i) = Thinking (Suc k)"
      using l3 by (simp add: frame_set_frame)
    moreover have "users (switches ?s' ! sw) = remove1 r (users (switches s ! sw))"
      using us by simp
    ultimately show ?thesis using think(1,2) d unfolding s' dr
      by (intro exI [of _ ?s'] exI [of _ "now s + uniform g (Suc (drawn s)) (think_lo cfg) (think_hi cfg)"])
         (simp add: queue_release eid_release)
  next
    case negative
    let ?s' = "pc_fails i ValueError (?s3\<lparr>drawn := Suc (drawn ?s3)\<rparr>)"
    have s': "after_grant cfg g i k rt sw srv r s = ?s'" using ag negative(3) by simp
    have "queue ?s' = queue s @ [(now s, NORMAL, eid s, ReleaseEv sw),
        (now s, NORMAL, Suc (eid s), ProcessEv (PCProc i) (Some ValueError))]"
      by (simp add: queue_pc_fails queue_release eid_release)
    moreover have "frame (pcs ?s' ! i) = Finished"
      using l3 by (simp add: pcs_pc_fails frame_set_frame)
    moreover have "users (switches ?s' ! sw) = remove1 r (users (switches s ! sw))"
      using us by simp
    moreover have "map successful_requests (pcs ?s') = map successful_requests (pcs s)"
      by (simp add: pcs_pc_fails)
    ultimately show ?thesis using negative(1,2) d unfolding s' dr
      by (intro exI [of _ ?s'] exI [of _ "now s"]) (simp add: queue_release eid_release)
  next
    case finished
    let ?s' = "schedule (ProcessEv (PCProc i) None) NORMAL 0 (set_frame i Finished ?s3)"
    have s': "after_grant cfg g i k rt sw srv r s = ?s'" using ag finished(2) by simp
    have "queue ?s' = queue s @ [(now s, NORMAL, eid s, ReleaseEv sw),
        (now s, NORMAL, Suc (eid s), ProcessEv (PCProc i) None)]"
      by (simp add: queue_schedule queue_release eid_release)
    moreover have "frame (pcs ?s' ! i) = Finished"
      using l3 by (simp add: frame_set_frame)
    moreover have "users (switches ?s' ! sw) = remove1 r (users (switches s ! sw))"
      using us by simp
    ultimately show ?thesis using finished(1) d unfolding s'
      by (intro exI [of _ ?s'] exI [of _ "now s"]) (simp add: queue_release eid_release)
  qed
qed

text \<open>
  C4. When the request of a PC is granted and the value drawn is below the loss
  probability, the step does not fail and does exactly this: the loss counter of the
  switch's class goes up by one; the request leaves \<open>users\<close> of its switch and the
  release event is scheduled at the current time; the only other event scheduled is that
  of the PC's next iteration (its think time, or the end of its generator), so no handler
  of a server is started; no latency, delay, output or queue-length sample is recorded
  and no success counter changes; the PC is in its next iteration, or has finished.
\<close>

theorem loss_is_counted_and_slot_released:
  assumes "heappop (queue s) = Some ((t, p, n, RequestEv sw0 e), q)"
    and "i < length (pcs s)" and "sw < length (switches s)"
    and "frame (pcs s ! i) = AwaitGrant k rt sw srv r" and "proc e = i"
    and "py_random g (drawn s) < loss_prob cfg"
  shows "\<exists>s' nxt. step cfg g s = Some (Inr s') \<and>
     data_loss s' = (data_loss s)(kind (switches s ! sw) := data_loss s (kind (switches s ! sw)) + 1) \<and>
     users (switches s' ! sw) = remove1 r (users (switches s ! sw)) \<and>
     queue s' = q @ [(t, NORMAL, eid s, ReleaseEv sw), (nxt, NORMAL, Suc (eid s),
         if Suc k < NUM_REQUESTS cfg
         then if 0 \<le> uniform g (Suc (drawn s)) (think_lo cfg) (think_hi cfg)
              then Timeout (PCProc i) else ProcessEv (PCProc i) (Some ValueError)
         else ProcessEv (PCProc i) None)] \<and>
     latencies s' = latencies s \<and> delays s' = delays s \<and>
     overall_latencies s' = overall_latencies s \<and> overall_delays s' = overall_delays s \<and>
     printed s' = printed s \<and> switch_stats s' = switch_stats s \<and>
     map successful_requests (pcs s') = map successful_requests (pcs s) \<and>
     frame (pcs s' ! i) =
       (if Suc k < NUM_REQUESTS cfg \<and> 0 \<le> uniform g (Suc (drawn s)) (think_lo cfg) (think_hi cfg)
        then Thinking (Suc k) else Finished)"
proof -
  let ?s = "s\<lparr>now := t, queue := q\<rparr>"
  have f: "pcs ?s = pcs s" "switches ?s = switches s" "drawn ?s = drawn s"
    "data_loss ?s = data_loss s" "queue ?s = q" "now ?s = t" "eid ?s = eid s"
    "latencies ?s = latencies s" "delays ?s = delays s"
    "overall_latencies ?s = overall_latencies s" "overall_delays ?s = overall_delays s"
    "printed ?s = printed s" "switch_stats ?s = switch_stats s"
    by simp_all
  note l = loss_on_dispatch [of i ?s sw k rt srv r e g cfg sw0, unfolded f, OF assms(2-6)]
  show ?thesis unfolding step_popped [OF assms(1)] option.inject by (rule l)
qed

lemma lossy_2:
  "pcs (state_after 2 lossy zero_draws) =
     [\<lparr>pc_name = ''PC1'', successful_requests = 0, frame = AwaitGrant 0 (1 / 10) 0 0 (Request 0)\<rparr>]"
  "length (switches (state_after 2 lossy zero_draws)) = 1"
  "heappop (queue (state_after 2 lossy zero_draws)) =
     Some ((1 / 10, NORMAL, 2, RequestEv 0 (Request 0)), [])"
  by (simp_all add: lossy_def eval_simps numeral_2_eq_2)

theorem loss_is_counted_and_slot_released_witness:
  "\<exists>s' nxt. step lossy zero_draws (state_after 2 lossy zero_draws) = Some (Inr s') \<and>
     data_loss s' = (data_loss (state_after 2 lossy zero_draws))
       (kind (switches (state_after 2 lossy zero_draws) ! 0) :=
          data_loss (state_after 2 lossy zero_draws) (kind (switches (state_after 2 lossy zero_draws) ! 0)) + 1) \<and>
     users (switches s' ! 0) = remove1 (Request 0) (users (switches (state_after 2 lossy zero_draws) ! 0)) \<and>
     queue s' = [] @ [(1 / 10, NORMAL, eid (state_after 2 lossy zero_draws), ReleaseEv 0),
        (nxt, NORMAL, Suc (eid (state_after 2 lossy zero_draws)),
         if Suc 0 < NUM_REQUESTS lossy
         then if 0 \<le> uniform zero_draws (Suc (drawn (state_after 2 lossy zero_draws)))
                        (think_lo lossy) (think_hi lossy)
              then Timeout (PCProc 0) else ProcessEv (PCProc 0) (Some ValueError)
         else ProcessEv (PCProc 0) None)] \<and>
     latencies s' = latencies (state_after 2 lossy zero_draws) \<and>
     delays s' = delays (state_after 2 lossy zero_draws) \<and>
     overall_latencies s' = overall_latencies (state_after 2 lossy zero_draws) \<and>
     overall_delays s' = overall_delays (state_after 2 lossy zero_draws) \<and>
     printed s' = printed (state_after 2 lossy zero_draws) \<and>
     switch_stats s' = switch_stats (state_after 2 lossy zero_draws) \<and>
     map successful_requests (pcs s') = map successful_requests (pcs (state_after 2 lossy zero_draws)) \<and>
     frame (pcs s' ! 0) =
       (if Suc 0 < NUM_REQUESTS lossy \<and>
           0 \<le> uniform zero_draws (Suc (drawn (state_after 2 lossy zero_draws)))
                  (think_lo lossy) (think_hi lossy)
        then Thinking (Suc 0) else Finished)"
proof -
  let ?s = "state_after 2 lossy zero_draws"
  have i: "0 < length (pcs ?s)" and sw: "0 < length (switches ?s)"
    and f: "frame (pcs ?s ! 0) = AwaitGrant 0 (1 / 10) 0 0 (Request 0)"
    by (simp_all add: lossy_2)
  have p: "proc (Request 0) = 0" by simp
  have u: "py_random zero_draws (drawn ?s) < loss_prob lossy"
    by (simp add: py_random_zero_draws lossy_def deployment_def)
  show ?thesis
    by (rule loss_is_counted_and_slot_released [OF lossy_2(3) i sw f p u])
qed

subsection \<open>Grants follow the order of arrival\<close>

lemma granted_at_append [simp]: "granted_at sw (xs @ ys) = granted_at sw xs @ granted_at sw ys"
  by (induction sw xs rule: granted_at.induct) simp_all

lemma moves_same:
  "queue s' = queue s \<Longrightarrow> length (switches s') = length (switches s) \<Longrightarrow>
   put_queue (switches s' ! sw) = put_queue (switches s ! sw) \<Longrightarrow> moves sw [] s s'"
  by (simp add: moves_def)

lemma moves_trans:
  assumes "moves sw n1 s s1" and "moves sw n2 s1 s2"
  shows "moves sw (n1 @ n2) s s2"
proof -
  from assms(1) obtain e1 where l1: "length (switches s1) = length (switches s)"
    and q1: "queue s1 = queue s @ e1"
    and p1: "put_queue (switches s ! sw) @ n1 = granted_at sw e1 @ put_queue (switches s1 ! sw)"
    by (auto simp add: moves_def)
  from assms(2) obtain e2 where l2: "length (switches s2) = length (switches s1)"
    and q2: "queue s2 = queue s1 @ e2"
    and p2: "put_queue (switches s1 ! sw) @ n2 = granted_at sw e2 @ put_queue (switches s2 ! sw)"
    by (auto simp add: moves_def)
  have "queue s2 = queue s @ (e1 @ e2)" by (simp add: q1 q2)
  moreover have "put_queue (switches s ! sw) @ (n1 @ n2)
      = granted_at sw (e1 @ e2) @ put_queue (switches s2 ! sw)"
    using p1 p2 by (metis append_assoc granted_at_append)
  ultimately show ?thesis unfolding moves_def using l1 l2 by auto
qed

lemma moves_trans0: "moves sw [] s s1 \<Longrightarrow> moves sw new s1 s2 \<Longrightarrow> moves sw new s s2"
  using moves_trans [of sw "[]" s s1 new s2] by simp

lemma moves_trans1: "moves sw new s s1 \<Longrightarrow> moves sw [] s1 s2 \<Longrightarrow> moves sw new s s2"
  using moves_trans [of sw new s s1 "[]" s2] by simp

lemma moves_schedule:
  "(\<And>e. ev \<noteq> RequestEv sw e) \<Longrightarrow> moves sw [] s (schedule ev p d s)"
  unfolding moves_def by (cases ev) (auto simp add: queue_schedule)

lemma put_queue_update_users:
  "put_queue ((xs[i := (xs ! i)\<lparr>users := us\<rparr>]) ! sw) = put_queue (xs ! sw)"
  by (cases "i < length xs"; cases "i = sw") (simp_all add: list_update_beyond)

lemma moves_release: "moves sw [] s (release sw' e s)"
proof -
  have "moves sw [] s (upd_switch sw' (\<lambda>x. x\<lparr>users := remove1 e (users x)\<rparr>) s)"
    by (rule moves_same) (simp_all add: put_queue_update_users)
  moreover have "moves sw [] (upd_switch sw' (\<lambda>x. x\<lparr>users := remove1 e (users x)\<rparr>) s) (release sw' e s)"
    unfolding release_def by (rule moves_schedule) simp
  ultimately show ?thesis by (rule moves_trans0)
qed

lemma moves_set_frame: "moves sw [] s (set_frame i fr s)"
  by (rule moves_same) simp_all

lemma moves_pc_fails: "moves sw [] s (pc_fails i err s)"
  unfolding pc_fails_def
  by (rule moves_trans0 [OF moves_set_frame]) (rule moves_schedule, simp)

lemma moves_trigger_put:
  assumes "sw < length (switches s)"
  shows "moves sw [] s (trigger_put sw' s)"
proof (cases rule: trigger_put_cases [of s sw'])
  case nobody
  then show ?thesis by (simp add: moves_same)
next
  case (full e rest)
  then show ?thesis by (simp add: moves_same)
next
  case (grant e rest)
  show ?thesis
  proof (cases "sw' = sw")
    case True
    with grant(1,3) assms show ?thesis
      unfolding moves_def by (auto simp add: queue_schedule)
  next
    case False
    with grant(3) show ?thesis
      unfolding moves_def by (auto simp add: queue_schedule)
  qed
qed

lemma moves_request_put:
  assumes "waiters_in_order (now s) (switches s)" and "sw < length (switches s)"
    and "sw' < length (switches s)" and "r = new_request (kind (switches s ! sw')) i (now s)"
  shows "moves sw (if sw' = sw then [r] else []) s (request_put sw' r s)"
proof -
  let ?s1 = "upd_switch sw' (\<lambda>x. x\<lparr>put_queue := put_queue x @ [r]\<rparr>) s"
  have eq: "request_put sw' r s = trigger_put sw' ?s1"
    using request_put_is_fifo [OF assms(1,3), of i] assms(4) by (simp add: fifo_request_put_def)
  have "moves sw (if sw' = sw then [r] else []) s ?s1"
    using assms(2) unfolding moves_def by (auto simp add: nth_list_update)
  moreover have "moves sw [] ?s1 (trigger_put sw' ?s1)"
    by (rule moves_trigger_put) (simp add: assms(2))
  ultimately show ?thesis unfolding eq by (rule moves_trans1)
qed

lemma moves_loop_head: "moves sw [] s (loop_head cfg g i k s)"
proof (cases rule: loop_head_cases [of k cfg g s i])
  case think
  have "moves sw [] s (set_frame i (Thinking k) (s\<lparr>drawn := Suc (drawn s)\<rparr>))"
    by (rule moves_same) simp_all
  moreover have "moves sw [] (set_frame i (Thinking k) (s\<lparr>drawn := Suc (drawn s)\<rparr>))
      (schedule (Timeout (PCProc i)) NORMAL (uniform g (drawn s) (think_lo cfg) (think_hi cfg))
         (set_frame i (Thinking k) (s\<lparr>drawn := Suc (drawn s)\<rparr>)))"
    by (rule moves_schedule) simp
  ultimately show ?thesis unfolding think(3) by (rule moves_trans0)
next
  case negative
  have "moves sw [] s (s\<lparr>drawn := Suc (drawn s)\<rparr>)" by (rule moves_same) simp_all
  then show ?thesis unfolding negative(3) by (rule moves_trans0) (rule moves_pc_fails)
next
  case finished
  show ?thesis unfolding finished(2)
    by (rule moves_trans0 [OF moves_set_frame]) (rule moves_schedule, simp)
qed

lemma moves_handler_start: "moves sw [] s (handler_start cfg g i j s)"
proof (cases rule: handler_start_cases [of g s cfg i j])
  case serve
  have "moves sw [] s (s\<lparr>drawn := Suc (drawn s)\<rparr>)" by (rule moves_same) simp_all
  then show ?thesis unfolding serve(2) by (rule moves_trans0) (rule moves_schedule, simp)
next
  case negative
  have "moves sw [] s (s\<lparr>drawn := Suc (drawn s)\<rparr>)" by (rule moves_same) simp_all
  then show ?thesis unfolding negative(2) by (rule moves_trans0) (rule moves_schedule, simp)
qed

lemma moves_handler_done: "moves sw [] s (handler_done i j s)"
proof -
  have "moves sw [] s (s\<lparr>printed := printed s @ [(pc_name (pcs s ! i), http_servers s ! j, now s)]\<rparr>)"
    by (rule moves_same) simp_all
  then show ?thesis unfolding handler_done_def by (rule moves_trans0) (rule moves_schedule, simp)
qed

lemma moves_after_grant: "moves sw [] s (after_grant cfg g i k rt sw' srv r s)"
proof (cases rule: after_grant_cases [of g s cfg i k rt sw' srv r])
  case loss
  let ?s2 = "s\<lparr>drawn := Suc (drawn s),
      data_loss := (data_loss s)(kind (switches s ! sw') := data_loss s (kind (switches s ! sw')) + 1)\<rparr>"
  have "moves sw [] s ?s2" by (rule moves_same) simp_all
  then have "moves sw [] s (release sw' r ?s2)" by (rule moves_trans0) (rule moves_release)
  then show ?thesis unfolding loss(2) by (rule moves_trans0) (rule moves_loop_head)
next
  case serve
  have "moves sw [] s (set_frame i (AwaitService k rt sw' srv r (now s)) (s\<lparr>drawn := Suc (drawn s)\<rparr>))"
    by (rule moves_same) simp_all
  then show ?thesis unfolding serve(2) by (rule moves_trans0) (rule moves_schedule, simp)
qed

lemma moves_after_service: "moves sw [] s (after_service cfg g i k rt sw' srv r st s)"
proof -
  let ?s2 = "s\<lparr>pcs := (pcs s)[i := (pcs s ! i)\<lparr>successful_requests := successful_requests (pcs s ! i) + 1\<rparr>],
             overall_latencies := overall_latencies s @ [now s - st],
             overall_delays := overall_delays s @ [now s - rt],
             latencies := (latencies s)(kind (switches s ! sw') := latencies s (kind (switches s ! sw')) @ [now s - st]),
             delays := (delays s)(kind (switches s ! sw') := delays s (kind (switches s ! sw')) @ [now s - rt])\<rparr>"
  have "moves sw [] s ?s2" by (rule moves_same) simp_all
  then have "moves sw [] s (release sw' r ?s2)" by (rule moves_trans0) (rule moves_release)
  then show ?thesis unfolding after_service_eq by (rule moves_trans0) (rule moves_loop_head)
qed

lemma moves_service_failed: "moves sw [] s (service_failed i sw' r err s)"
  unfolding service_failed_def by (rule moves_trans0 [OF moves_release]) (rule moves_pc_fails)

lemma moves_issue_request:
  assumes "waiters_in_order (now s) (switches s)" and "sw < length (switches s)"
    and "frame (pcs s ! i) = Thinking k"
  shows "moves sw (acquired_at sw cfg g (Timeout (PCProc i)) s) s (issue_request cfg g i k s)"
proof (cases rule: issue_request_cases [of s cfg g i k])
  case no_switch
  then show ?thesis by (simp add: acquired_at_def assms(3) moves_pc_fails)
next
  case no_server
  have "moves sw [] s (s\<lparr>drawn := Suc (drawn s)\<rparr>)" by (rule moves_same) simp_all
  then have "moves sw [] s (issue_request cfg g i k s)"
    unfolding no_server(3) by (rule moves_trans0) (rule moves_pc_fails)
  with no_server(2) show ?thesis by (simp add: acquired_at_def assms(3))
next
  case (no_stats sw')
  have "moves sw [] s (s\<lparr>drawn := Suc (Suc (drawn s))\<rparr>)" by (rule moves_same) simp_all
  then have "moves sw [] s (issue_request cfg g i k s)"
    unfolding no_stats(5) by (rule moves_trans0) (rule moves_pc_fails)
  with no_stats(3,4) show ?thesis by (auto simp add: acquired_at_def assms(3))
next
  case (request sw' srv st r)
  let ?s3 = "s\<lparr>drawn := Suc (Suc (drawn s)),
                 switch_stats := (switch_stats s)(switch_name (switches s ! sw') \<mapsto>
                    st\<lparr>queue_lengths := queue_lengths st @ [length (put_queue (switches s ! sw'))]\<rparr>)\<rparr>"
  from request(1,3) have l: "sw' < length (switches s)" by (simp add: randbelow_less)
  have acq: "acquired_at sw cfg g (Timeout (PCProc i)) s = (if sw' = sw then [r] else [])"
    using request(1-6) by (auto simp add: acquired_at_def assms(3))
  have "moves sw [] s ?s3" by (rule moves_same) simp_all
  moreover have "moves sw (if sw' = sw then [r] else []) ?s3 (request_put sw' r ?s3)"
    by (rule moves_request_put [where i = i]) (simp_all add: assms(1,2) l request(6))
  ultimately have "moves sw (if sw' = sw then [r] else []) s (request_put sw' r ?s3)"
    by (rule moves_trans0)
  then have "moves sw (if sw' = sw then [r] else []) s (issue_request cfg g i k s)"
    unfolding request(7) by (rule moves_trans1) (rule moves_set_frame)
  with acq show ?thesis by simp
qed

lemma acquired_at_other:
  "(\<And>i. ev \<noteq> Timeout (PCProc i)) \<Longrightarrow> acquired_at sw cfg g ev s = []"
  by (cases ev) (auto simp add: acquired_at_def split: process.splits)

lemma moves_dispatch:
  assumes "dispatch cfg g ev s = Inr s'" and "waiters_in_order (now s) (switches s)"
    and "sw < length (switches s)"
  shows "moves sw (acquired_at sw cfg g ev s) s s'"
  using assms(1)
proof (cases rule: dispatch_cases)
  case (think_over i k)
  with moves_issue_request [OF assms(2,3) think_over(2)] show ?thesis by simp
next
  case (released sw')
  with moves_trigger_put [OF assms(3)] show ?thesis by (simp add: acquired_at_other)
next
  case idle
  then show ?thesis
  proof (cases "\<exists>i k. ev = Timeout (PCProc i) \<and> frame (pcs s ! i) = Thinking k")
    case True
    then obtain i k where "ev = Timeout (PCProc i)" "frame (pcs s ! i) = Thinking k" by blast
    with assms(1) have "s' = issue_request cfg g i k s" by simp
    with moves_issue_request [OF assms(2,3) \<open>frame (pcs s ! i) = Thinking k\<close>] \<open>ev = Timeout (PCProc i)\<close>
    show ?thesis by simp
  next
    case False
    then have "acquired_at sw cfg g ev s = []"
      by (cases ev) (auto simp add: acquired_at_def split: process.splits frame.splits)
    with idle show ?thesis by (simp add: moves_same)
  qed
qed (simp_all add: acquired_at_other moves_loop_head moves_handler_start moves_handler_done
       moves_after_grant moves_after_service moves_service_failed)

lemma observed_reachable: "observed cfg g s A G \<Longrightarrow> reachable cfg g s"
proof (induction rule: observed.induct)
  case (obs_init s)
  then show ?case by (rule reach_init)
next
  case (obs_step s A G t p n ev q s')
  from obs_step(2,3) have "step cfg g s = Some (Inr s')" by (simp add: step_popped)
  with obs_step(4) show ?case by (rule reach_step)
qed

lemma kind_static:
  assumes "map sw_static xs = map sw_static ys" and "sw < length xs"
  shows "kind (xs ! sw) = kind (ys ! sw)"
proof -
  from assms(1) have l: "length xs = length ys" by (rule map_eq_imp_length_eq)
  from assms have "map sw_static xs ! sw = map sw_static ys ! sw" by simp
  with assms(2) l show ?thesis by (simp add: sw_static_def)
qed

lemma acquired_at_default:
  "r \<in> set (acquired_at sw cfg g ev s) \<Longrightarrow> kind (switches s ! sw) = Priority \<Longrightarrow>
   priority r = 0 \<and> preempt r"
  by (auto simp add: acquired_at_def new_request_def
      split: event.splits process.splits frame.splits if_splits)

lemma observed_fifo:
  assumes "observed cfg g s A G"
  shows "(\<forall>sw < length (switches s). A sw = G sw @ put_queue (switches s ! sw)) \<and>
         default_acquires (switches s) A"
  using assms
proof (induction rule: observed.induct)
  case (obs_init s)
  then show ?case
    by (rule setup_simulation_Inr) (auto simp add: default_acquires_def nth_append)
next
  case (obs_step s A G t p n ev q s')
  let ?s = "s\<lparr>now := t, queue := q\<rparr>"
  note r = observed_reachable [OF obs_step(1)]
  from obs_step(2) ahead_reachable [OF r] have "now s \<le> t" by (rule ahead_pop(1))
  with waiters_reachable [OF r] have w: "waiters_in_order (now ?s) (switches ?s)"
    by (simp add: waiters_mono)
  note st = static_dispatch [OF obs_step(3)]
  then have len: "length (switches s') = length (switches s)"
    using map_eq_imp_length_eq by fastforce
  have "A sw @ acquired_at sw cfg g ev ?s =
        (G sw @ granted_at sw (drop (length q) (queue s'))) @ put_queue (switches s' ! sw)"
    if sw: "sw < length (switches s')" for sw
  proof -
    from sw len have l: "sw < length (switches ?s)" by simp
    from moves_dispatch [OF obs_step(3) w l] obtain ext
      where q: "queue s' = q @ ext"
        and m: "put_queue (switches s ! sw) @ acquired_at sw cfg g ev ?s
                  = granted_at sw ext @ put_queue (switches s' ! sw)"
      by (auto simp add: moves_def)
    from obs_step.IH l have "A sw = G sw @ put_queue (switches s ! sw)" by simp
    with q m show ?thesis by simp
  qed
  moreover have "default_acquires (switches s')
      (\<lambda>sw. A sw @ acquired_at sw cfg g ev ?s)"
    unfolding default_acquires_def
  proof (intro allI impI ballI)
    fix sw r
    assume sw: "sw < length (switches s')" and k: "kind (switches s' ! sw) = Priority"
      and r: "r \<in> set (A sw @ acquired_at sw cfg g ev ?s)"
    from kind_static [OF st sw] k have k0: "kind (switches s ! sw) = Priority" by simp
    from r have "r \<in> set (A sw) \<or> r \<in> set (acquired_at sw cfg g ev ?s)" by simp
    then show "priority r = 0 \<and> preempt r"
    proof
      assume "r \<in> set (A sw)"
      with obs_step.IH sw len k0 show ?thesis by (simp add: default_acquires_def)
    next
      assume "r \<in> set (acquired_at sw cfg g ev ?s)"
      then show ?thesis by (rule acquired_at_default) (simp add: k0)
    qed
  qed
  ultimately show ?case by simp
qed

text \<open>
  C5. Along every run and for every switch, of either class, the requests acquired at
  the switch, in the order in which the acquires were made, are the requests granted at
  it, in the order in which the slots were granted, followed by the requests that still
  wait, in the order of the put queue. So the requests of a switch get their slots in
  the order of their arrival (requests of the same instant in the order in which the
  run made them), at a \<open>PriorityQueue\<close> exactly as at a \<open>FIFOQueue\<close>. Every request
  acquired at a \<open>PriorityQueue\<close> carries the default key (priority 0, \<open>preempt\<close> true).
\<close>

theorem grants_in_order_of_arrival:
  assumes "observed cfg g s A G" and "sw < length (switches s)"
  shows "A sw = G sw @ put_queue (switches s ! sw) \<and>
         (kind (switches s ! sw) = Priority \<longrightarrow> (\<forall>r \<in> set (A sw). priority r = 0 \<and> preempt r))"
  using observed_fifo [OF assms(1)] assms(2) by (simp add: default_acquires_def)

lemma observed_observe_step:
  assumes "observed cfg g s A G" and "observe_step cfg g (s, A, G) = (s', A', G')"
  shows "observed cfg g s' A' G'"
proof (cases "heappop (queue s)")
  case None
  with assms show ?thesis by (simp add: observe_step_def)
next
  case (Some x)
  then obtain t p n ev q where h: "heappop (queue s) = Some ((t, p, n, ev), q)"
    by (cases x) auto
  show ?thesis
  proof (cases "dispatch cfg g ev (s\<lparr>now := t, queue := q\<rparr>)")
    case (Inl err)
    with h assms show ?thesis by (simp add: observe_step_def)
  next
    case (Inr s'')
    with h assms(2) have "s' = s''"
      and "A' = (\<lambda>sw. A sw @ acquired_at sw cfg g ev (s\<lparr>now := t, queue := q\<rparr>))"
      and "G' = (\<lambda>sw. G sw @ granted_at sw (drop (length q) (queue s'')))"
      by (auto simp add: observe_step_def)
    with obs_step [OF assms(1) h Inr] show ?thesis by simp
  qed
qed

lemma observed_after_observed:
  assumes "\<not> isl (setup_simulation cfg)" and "observed_after n cfg g = (s, A, G)"
  shows "observed cfg g s A G"
  using assms(2)
proof (induction n arbitrary: s A G)
  case 0
  with assms(1) show ?case
    by (cases "setup_simulation cfg") (auto simp add: observed_after_def intro: obs_init)
next
  case (Suc n)
  obtain s0 A0 G0 where o: "observed_after n cfg g = (s0, A0, G0)"
    by (cases "observed_after n cfg g") auto
  from Suc.prems o have "observe_step cfg g (s0, A0, G0) = (s, A, G)"
    by (simp add: observed_after_def)
  with Suc.IH [OF o] show ?case by (rule observed_observe_step)
qed

lemma contention_observed_4:
  "observed_after 4 contention zero_draws = (s, A, G) \<Longrightarrow>
     A 0 = [PriorityRequest 0 0 (1 / 10) True, PriorityRequest 1 0 (1 / 10) True] \<and>
     G 0 = [PriorityRequest 0 0 (1 / 10) True] \<and>
     switches s = [\<lparr>switch_name = ''Priority Switch 1'', kind = Priority, capacity = 1,
       users = [PriorityRequest 0 0 (1 / 10) True],
       put_queue = [PriorityRequest 1 0 (1 / 10) True]\<rparr>]"
  by (auto simp add: observed_after_def observe_step_def acquired_at_def contention_def eval_simps
      eval_nat_numeral string_of_nat_2)

theorem grants_in_order_of_arrival_witness:
  "(case observed_after 4 contention zero_draws of (s, A, G) \<Rightarrow>
      A 0 = [PriorityRequest 0 0 (1 / 10) True, PriorityRequest 1 0 (1 / 10) True] \<and>
      G 0 = [PriorityRequest 0 0 (1 / 10) True] \<and>
      put_queue (switches s ! 0) = [PriorityRequest 1 0 (1 / 10) True] \<and>
      A 0 = G 0 @ put_queue (switches s ! 0))"
proof -
  obtain s A G where o: "observed_after 4 contention zero_draws = (s, A, G)"
    by (cases "observed_after 4 contention zero_draws") auto
  note e = contention_observed_4 [OF o]
  have ob: "observed contention zero_draws s A G"
    by (rule observed_after_observed [OF setup_contention o])
  have l: "0 < length (switches s)" using e by simp
  from grants_in_order_of_arrival [OF ob l] e show ?thesis
    by (simp add: o)
qed

subsection \<open>The scenario of one request\<close>











subsection \<open>Construction\<close>

text \<open>
  C7 (as the code has it). No configuration is checked by the program itself, and it has
  no \<open>ConfigurationError\<close>. Construction fails exactly when a switch is built with a
  capacity that is not positive, and then with the \<open>ValueError\<close> of the resource
  library; every other configuration, also one with no switch at all or with a negative
  think-time or service-time range, is constructed.
\<close>

theorem construction_fails_only_on_capacity:
  "(SWITCH_CAPACITY cfg \<le> 0 \<and> 0 < FIFO_COUNT cfg + PRIORITY_COUNT cfg
      \<longrightarrow> setup_simulation cfg = Inl ValueError) \<and>
   (\<not> (SWITCH_CAPACITY cfg \<le> 0 \<and> 0 < FIFO_COUNT cfg + PRIORITY_COUNT cfg)
      \<longrightarrow> (\<exists>s. setup_simulation cfg = Inr s))"
proof (intro conjI impI)
  assume bad: "SWITCH_CAPACITY cfg \<le> 0 \<and> 0 < FIFO_COUNT cfg + PRIORITY_COUNT cfg"
  show "setup_simulation cfg = Inl ValueError"
  proof (cases "FIFO_COUNT cfg = 0")
    case True
    with bad have "[0..<PRIORITY_COUNT cfg] \<noteq> []" by simp
    with bad True show ?thesis
      by (simp add: setup_simulation_def make_switches_bad)
  next
    case False
    then have "[0..<FIFO_COUNT cfg] \<noteq> []" by simp
    with bad show ?thesis
      by (simp add: setup_simulation_def make_switches_bad)
  qed
next
  assume ok: "\<not> (SWITCH_CAPACITY cfg \<le> 0 \<and> 0 < FIFO_COUNT cfg + PRIORITY_COUNT cfg)"
  show "\<exists>s. setup_simulation cfg = Inr s"
  proof (cases "0 < SWITCH_CAPACITY cfg")
    case True
    then show ?thesis by (simp add: setup_simulation_def make_switches_good)
  next
    case False
    with ok have "FIFO_COUNT cfg = 0" "PRIORITY_COUNT cfg = 0" by auto
    then show ?thesis by (simp add: setup_simulation_def)
  qed
qed

theorem construction_fails_only_on_capacity_witness:
  "setup_simulation no_capacity = Inl ValueError \<and> (\<exists>s. setup_simulation no_switches = Inr s)"
proof -
  have bad: "SWITCH_CAPACITY no_capacity \<le> 0 \<and> 0 < FIFO_COUNT no_capacity + PRIORITY_COUNT no_capacity"
    by (simp add: no_capacity_def deployment_def)
  have ok: "\<not> (SWITCH_CAPACITY no_switches \<le> 0 \<and> 0 < FIFO_COUNT no_switches + PRIORITY_COUNT no_switches)"
    by (simp add: no_switches_def deployment_def)
  show ?thesis
    using construction_fails_only_on_capacity [THEN conjunct1, THEN mp, OF bad]
      construction_fails_only_on_capacity [THEN conjunct2, THEN mp, OF ok]
    by (rule conjI)
qed

text \<open>
  C7 (as stated) fails: with no switch at all nothing is refused at construction. The
  run starts, and the first PC whose think time is over raises \<open>IndexError\<close> from
  \<open>random.choice\<close>; \<open>run\<close> raises it when the failed process event is processed.
\<close>

theorem zero_queues_not_refused:
  "\<not> isl (setup_simulation no_switches) \<and>
   run 3 no_switches zero_draws (projr (setup_simulation no_switches)) = Some (Inl IndexError)"
  by (simp add: setup_simulation_def no_switches_def deployment_def add_pc_def schedule_def
      URGENT_def NORMAL_def string_of_nat_1 step_def heappop_single loop_head_def uniform_def
      set_frame_def issue_request_def pc_fails_def numeral_3_eq_3 py_random_zero_draws)

subsection \<open>Summary statistics\<close>

lemma average_eq: "average xs = Some (if xs = [] then 0 else sum_list xs / real (length xs))"
  by (simp add: average_def np_mean_def)

text \<open>
  C8 (as the code has it). When the run has ended at a clock that is not 0, the summary
  of lines 122 to 126 is computed without exception, and each of its four means, of the
  latencies and of the delays of the two classes of switch, is the sum of the samples
  divided by their number, and 0 for an empty sequence. The sequences
  \<open>overall_latencies\<close> and \<open>overall_delays\<close> get no mean.
\<close>

theorem means_of_the_summary:
  "now s \<noteq> 0 \<Longrightarrow>
   \<exists>r. summarise s = Inr r \<and>
     average_latency_fifo r =
       Some (if latencies s FIFO = [] then 0
             else sum_list (latencies s FIFO) / real (length (latencies s FIFO))) \<and>
     average_latency_priority r =
       Some (if latencies s Priority = [] then 0
             else sum_list (latencies s Priority) / real (length (latencies s Priority))) \<and>
     average_delay_fifo r =
       Some (if delays s FIFO = [] then 0
             else sum_list (delays s FIFO) / real (length (delays s FIFO))) \<and>
     average_delay_priority r =
       Some (if delays s Priority = [] then 0
             else sum_list (delays s Priority) / real (length (delays s Priority)))"
  by (simp add: summarise_def average_eq)

theorem means_of_the_summary_witness:
  "\<exists>r. summarise sample_state = Inr r \<and>
      average_latency_fifo r = Some (3 / 2) \<and> average_latency_priority r = Some 0 \<and>
      average_delay_fifo r = Some 3 \<and> average_delay_priority r = Some 0"
proof -
  have n: "now sample_state \<noteq> 0" by (simp add: sample_state_def)
  have l: "latencies sample_state FIFO = [1, 2]" "latencies sample_state Priority = []"
    "delays sample_state FIFO = [2, 4]" "delays sample_state Priority = []"
    by (simp_all add: sample_state_def)
  from means_of_the_summary [OF n] show ?thesis
    unfolding l by simp
qed

text \<open>
  C8 (as stated) fails: with no PC the run ends at once, at clock 0, with every sequence
  of samples empty, and the summary is not four zeros: line 122 raises
  \<open>ZeroDivisionError\<close> before any mean is computed.
\<close>

theorem summary_raises_at_clock_zero:
  "\<not> isl (setup_simulation no_pcs) \<and>
   run 0 no_pcs zero_draws (projr (setup_simulation no_pcs))
     = Some (Inr (projr (setup_simulation no_pcs))) \<and>
   latencies (projr (setup_simulation no_pcs)) FIFO = [] \<and>
   latencies (projr (setup_simulation no_pcs)) Priority = [] \<and>
   delays (projr (setup_simulation no_pcs)) FIFO = [] \<and>
   delays (projr (setup_simulation no_pcs)) Priority = [] \<and>
   summarise (projr (setup_simulation no_pcs)) = Inl ZeroDivisionError"
  by (simp add: setup_simulation_def no_pcs_def deployment_def make_switches_good summarise_def)

end
